theory Spec2Isabelle
  imports
    Main
    "HOL-Library.Word"
    "HOL-Library.Finite_Map"
    "HOL-Library.Char_ord"
    "HOL-Library.List_Lexorder"
begin

section \<open>The bencode package of gorrent\<close>

text \<open>
  The package has a decoder (type \<open>Decoder\<close>, functions \<open>Decode\<close>, \<open>nextObject\<close>,
  \<open>nextInteger\<close>, \<open>nextString\<close>, \<open>nextList\<close>, \<open>nextDict\<close>) and an encoder (type
  \<open>Encoder\<close>, functions \<open>Encode\<close>, \<open>encodeObject\<close>, \<open>encodeString\<close>,
  \<open>encodeInteger\<close>, \<open>encodeList\<close>, \<open>encodeDict\<close>). The sources hold several
  historical revisions of both; the development below embeds the latest revision of each:
  the decoder that uses package \<open>errors\<close>, and the encoder with the \<open>Encoder\<close> struct that
  sorts dictionary keys.

  Go strings and byte slices are byte sequences: \<open>string\<close>, whose characters are the 256
  byte values, ordered by their codes. Lists of bytes are ordered lexicographically, as Go
  compares strings. Go's \<open>int\<close> is taken to be 64 bits wide.
\<close>

subsection \<open>Values\<close>

type_synonym int64 = "64 word"

text \<open>
  What the decoder returns and the encoder accepts inside an \<open>interface{}\<close>: an
  \<open>int64\<close>, a \<open>string\<close>, a \<open>[]interface{}\<close> or a \<open>map[string]interface{}\<close>. A Go map
  has unique keys and no observable order: a finite map.
\<close>

datatype bvalue =
    Integer int64
  | ByteString string
  | BList "bvalue list"
  | Dictionary "(string, bvalue) fmap"

subsection \<open>Library functions: decimal text\<close>

definition is_digit :: "char \<Rightarrow> bool" where
  "is_digit c = (CHR ''0'' \<le> c \<and> c \<le> CHR ''9'')"

definition digit_val :: "char \<Rightarrow> int" where
  "digit_val c = of_char c - 48"

definition digit_char :: "int \<Rightarrow> char" where
  "digit_char n = char_of (48 + n)"

text \<open>The number a run of decimal digits denotes.\<close>

definition dec :: "string \<Rightarrow> int" where
  "dec ds = foldl (\<lambda>acc c. 10 * acc + digit_val c) 0 ds"

text \<open>
  The decimal text of a number that is not negative, as \<open>%d\<close> prints it: no leading
  zeros.
\<close>

function decimal :: "int \<Rightarrow> string" where
  "decimal n = (if n < 10 then [digit_char n] else decimal (n div 10) @ [digit_char (n mod 10)])"
  by pat_completeness auto
termination
  by (relation "measure nat") auto

declare decimal.simps [simp del]

text \<open>\<open>fmt.Sprintf("%d", i)\<close> for an \<open>int64\<close>.\<close>

definition Sprintd :: "int64 \<Rightarrow> string" where
  "Sprintd i = (if sint i < 0 then CHR ''-'' # decimal (- sint i) else decimal (sint i))"

datatype numerr = ErrSyntax | ErrRange

text \<open>
  \<open>strconv.ParseInt(s, 10, 64)\<close>: an optional sign, then decimal digits only. On a range
  error the value returned with the error is the nearest bound.
\<close>

definition ParseInt :: "string \<Rightarrow> int64 \<times> numerr option" where
  "ParseInt s =
     (let neg = (s \<noteq> [] \<and> hd s = CHR ''-'');
          ds = (if s \<noteq> [] \<and> (hd s = CHR ''+'' \<or> hd s = CHR ''-'') then tl s else s)
      in if ds = [] \<or> \<not> list_all is_digit ds then (0, Some ErrSyntax)
         else if neg then
           (if 2 ^ 63 < dec ds then (word_of_int (- (2 ^ 63)), Some ErrRange)
            else (word_of_int (- dec ds), None))
         else
           (if 2 ^ 63 \<le> dec ds then (word_of_int (2 ^ 63 - 1), Some ErrRange)
            else (word_of_int (dec ds), None)))"

text \<open>\<open>strconv.Atoi(s)\<close>: \<open>ParseInt\<close> at the width of \<open>int\<close>, read as a number.\<close>

definition Atoi :: "string \<Rightarrow> numerr + int" where
  "Atoi s = (case ParseInt s of (i, None) \<Rightarrow> Inr (sint i) | (i, Some e) \<Rightarrow> Inl e)"

subsection \<open>Decoder state, errors and outcomes\<close>

record Decoder =
  stream :: string
  pos :: nat
  Consumed :: bool

definition NewDecoder :: "string \<Rightarrow> Decoder" where
  "NewDecoder b = \<lparr>stream = b, pos = 0, Consumed = False\<rparr>"

text \<open>
  The two package-level error values, and one constructor for each place that builds an
  error with \<open>errors.New\<close> or \<open>fmt.Errorf\<close>.
\<close>

datatype error =
    ErrorConsumed
  | ErrorNoTerminator
  | NoStartingI
  | InvalidByte char
  | NoBytesInInteger
  | LeadingZeros
  | ParseIntError numerr
  | NoLengthDeterminator
  | NoStringFound
  | BadLengthSpecifier numerr
  | LengthLongerThanBuffer
  | CouldntParse nat char
  | NotAList
  | NotADict

text \<open>
  A decoding function either panics (an index or a slice bound out of range), or returns
  its pair \<open>(res, err)\<close> and leaves the decoder in a new state. \<open>Fail r e d\<close> is the return
  with \<open>err = e\<close>, where \<open>r\<close> is what \<open>res\<close> holds at that moment; \<open>Ok r d\<close> is the return
  with \<open>err = nil\<close>. \<open>OutOfFuel\<close> belongs to the recursion bound of the model only.
\<close>

datatype ('r, 'a) outcome =
    Panic
  | OutOfFuel
  | Fail 'r error Decoder
  | Ok 'a Decoder

text \<open>\<open>s[i]\<close> and \<open>s[lo:hi]\<close>, which panic out of range.\<close>

definition byte_at :: "string \<Rightarrow> nat \<Rightarrow> char option" where
  "byte_at s i = (if i < length s then Some (s ! i) else None)"

definition slice :: "string \<Rightarrow> nat \<Rightarrow> int \<Rightarrow> string option" where
  "slice s lo hi =
     (if int lo \<le> hi \<and> hi \<le> int (length s) then Some (take (nat hi - lo) (drop lo s)) else None)"

subsection \<open>Integers\<close>

datatype scan = ScanPanic | ScanFail error | ScanAt nat

text \<open>The loop of \<open>nextInteger\<close> that looks for the terminating \<open>e\<close>.\<close>

function intLoop :: "string \<Rightarrow> nat \<Rightarrow> scan" where
  "intLoop s idx =
     (if length s \<le> idx then ScanPanic
      else if s ! idx = CHR ''e'' then ScanAt idx
      else if s ! idx < CHR ''0'' \<or> s ! idx > CHR ''9'' then ScanFail (InvalidByte (s ! idx))
      else if length s \<le> idx + 1 then ScanFail ErrorNoTerminator
      else intLoop s (idx + 1))"
  by pat_completeness auto
termination
  by (relation "measure (\<lambda>(s, idx). length s - idx)") auto

declare intLoop.simps [simp del]

definition nextInteger :: "Decoder \<Rightarrow> (int64, int64) outcome" where
  "nextInteger d =
     (case byte_at (stream d) (pos d) of
        None \<Rightarrow> Panic
      | Some c \<Rightarrow>
          if c \<noteq> CHR ''i'' then Fail 0 NoStartingI d
          else
            let d1 = d\<lparr>pos := pos d + 1\<rparr> in
            (case byte_at (stream d1) (pos d1) of
               None \<Rightarrow> Panic
             | Some c1 \<Rightarrow>
                 let start = (if c1 = CHR ''-'' then pos d1 + 1 else pos d1) in
                 (case intLoop (stream d1) start of
                    ScanPanic \<Rightarrow> Panic
                  | ScanFail e \<Rightarrow> Fail 0 e d1
                  | ScanAt idx \<Rightarrow>
                      if start = idx then Fail 0 NoBytesInInteger d1
                      else
                        (case byte_at (stream d1) start of
                           None \<Rightarrow> Panic
                         | Some c0 \<Rightarrow>
                             if c0 = CHR ''0'' \<and> 1 < idx - start then Fail 0 LeadingZeros d1
                             else
                               (case slice (stream d1) (pos d1) (int idx) of
                                  None \<Rightarrow> Panic
                                | Some s \<Rightarrow>
                                    (case ParseInt s of
                                       (res, Some e) \<Rightarrow> Fail res (ParseIntError e) d1
                                     | (res, None) \<Rightarrow> Ok res (d1\<lparr>pos := idx + 1\<rparr>)))))))"

subsection \<open>Strings\<close>

text \<open>The loop of \<open>nextString\<close> that looks for the colon.\<close>

function strLoop :: "string \<Rightarrow> nat \<Rightarrow> scan" where
  "strLoop s len_end =
     (if length s \<le> len_end then ScanPanic
      else if s ! len_end = CHR '':'' then ScanAt len_end
      else if length s \<le> len_end + 1 then ScanFail NoStringFound
      else strLoop s (len_end + 1))"
  by pat_completeness auto
termination
  by (relation "measure (\<lambda>(s, len_end). length s - len_end)") auto

declare strLoop.simps [simp del]

definition nextString :: "Decoder \<Rightarrow> (string, string) outcome" where
  "nextString d =
     (case byte_at (stream d) (pos d) of
        None \<Rightarrow> Panic
      | Some c \<Rightarrow>
          if c < CHR ''0'' \<or> c > CHR ''9'' then Fail [] NoLengthDeterminator d
          else
            (case strLoop (stream d) (pos d) of
               ScanPanic \<Rightarrow> Panic
             | ScanFail e \<Rightarrow> Fail [] e d
             | ScanAt len_end \<Rightarrow>
                 (case slice (stream d) (pos d) (int len_end) of
                    None \<Rightarrow> Panic
                  | Some len_str \<Rightarrow>
                      (case Atoi len_str of
                         Inl e \<Rightarrow> Fail [] (BadLengthSpecifier e) d
                       | Inr l \<Rightarrow>
                           if int (length (stream d) - len_end) \<le> l
                           then Fail [] LengthLongerThanBuffer d
                           else
                             (case slice (stream d) (len_end + 1) (int (len_end + 1) + l) of
                                None \<Rightarrow> Panic
                              | Some res \<Rightarrow> Ok res (d\<lparr>pos := nat (int (len_end + 1) + l)\<rparr>))))))"

subsection \<open>Objects, lists and dictionaries\<close>

text \<open>The end of \<open>nextObject\<close>: the flag is set when the cursor has reached the end.\<close>

definition mark_consumed :: "Decoder \<Rightarrow> Decoder" where
  "mark_consumed d = (if length (stream d) \<le> pos d then d\<lparr>Consumed := True\<rparr> else d)"

text \<open>
  \<open>res, err = self.nextX()\<close> inside \<open>nextObject\<close>: the typed result goes into the
  \<open>interface{}\<close>, also when \<open>err\<close> is set.
\<close>

definition boxed :: "('a \<Rightarrow> bvalue) \<Rightarrow> ('a, 'a) outcome \<Rightarrow> (bvalue option, bvalue) outcome" where
  "boxed f r =
     (case r of
        Panic \<Rightarrow> Panic
      | OutOfFuel \<Rightarrow> OutOfFuel
      | Fail x e d \<Rightarrow> Fail (Some (f x)) e (mark_consumed d)
      | Ok x d \<Rightarrow> Ok (f x) (mark_consumed d))"

text \<open>
  \<open>nextObject\<close>, \<open>nextList\<close> and \<open>nextDict\<close> call each other; the first argument bounds
  the depth of the calls and the number of loop rounds. \<open>listLoop\<close> and \<open>dictLoop\<close> are
  the \<open>for\<close> loops of \<open>nextList\<close> and \<open>nextDict\<close>, with \<open>res\<close> as built so far.
\<close>

fun nextObject :: "nat \<Rightarrow> Decoder \<Rightarrow> (bvalue option, bvalue) outcome"
  and nextList :: "nat \<Rightarrow> Decoder \<Rightarrow> (bvalue list, bvalue list) outcome"
  and listLoop :: "nat \<Rightarrow> bvalue list \<Rightarrow> Decoder \<Rightarrow> (bvalue list, bvalue list) outcome"
  and nextDict :: "nat \<Rightarrow> Decoder \<Rightarrow> ((string, bvalue) fmap, (string, bvalue) fmap) outcome"
  and dictLoop :: "nat \<Rightarrow> (string, bvalue) fmap \<Rightarrow> Decoder
                     \<Rightarrow> ((string, bvalue) fmap, (string, bvalue) fmap) outcome"
where
  "nextObject 0 d = OutOfFuel"
| "nextObject (Suc n) d =
     (if Consumed d then Fail None ErrorConsumed d
      else
        (case byte_at (stream d) (pos d) of
           None \<Rightarrow> Panic
         | Some c \<Rightarrow>
             if c = CHR ''i'' then boxed Integer (nextInteger d)
             else if c = CHR ''l'' then boxed BList (nextList n d)
             else if c = CHR ''d'' then boxed Dictionary (nextDict n d)
             else if CHR ''0'' \<le> c \<and> c \<le> CHR ''9'' then boxed ByteString (nextString d)
             else Fail None (CouldntParse (pos d) c) (mark_consumed d)))"
| "nextList n d =
     (case byte_at (stream d) (pos d) of
        None \<Rightarrow> Panic
      | Some c \<Rightarrow>
          if c \<noteq> CHR ''l'' then Fail [] NotAList d
          else
            let d1 = d\<lparr>pos := pos d + 1\<rparr> in
            (case byte_at (stream d1) (pos d1) of
               None \<Rightarrow> Panic
             | Some c1 \<Rightarrow>
                 if c1 = CHR ''e'' then Ok [] (d1\<lparr>pos := pos d1 + 1\<rparr>)
                 else listLoop n [] d1))"
| "listLoop 0 res d = OutOfFuel"
| "listLoop (Suc n) res d =
     (case nextObject n d of
        Panic \<Rightarrow> Panic
      | OutOfFuel \<Rightarrow> OutOfFuel
      | Fail x e d' \<Rightarrow> Fail res e d'
      | Ok obj d' \<Rightarrow>
          if length (stream d') \<le> pos d' then Fail (res @ [obj]) ErrorNoTerminator d'
          else
            (case byte_at (stream d') (pos d') of
               None \<Rightarrow> Panic
             | Some c \<Rightarrow>
                 if c = CHR ''e'' then Ok (res @ [obj]) (d'\<lparr>pos := pos d' + 1\<rparr>)
                 else listLoop n (res @ [obj]) d'))"
| "nextDict n d =
     (case byte_at (stream d) (pos d) of
        None \<Rightarrow> Panic
      | Some c \<Rightarrow>
          if c \<noteq> CHR ''d'' then Fail fmempty NotADict d
          else
            let d1 = d\<lparr>pos := pos d + 1\<rparr> in
            (case byte_at (stream d1) (pos d1) of
               None \<Rightarrow> Panic
             | Some c1 \<Rightarrow>
                 if c1 = CHR ''e'' then Ok fmempty (d1\<lparr>pos := pos d1 + 1\<rparr>)
                 else dictLoop n fmempty d1))"
| "dictLoop 0 res d = OutOfFuel"
| "dictLoop (Suc n) res d =
     (case nextString d of
        Panic \<Rightarrow> Panic
      | OutOfFuel \<Rightarrow> OutOfFuel
      | Fail x e d' \<Rightarrow> Fail res e d'
      | Ok key d' \<Rightarrow>
          (case nextObject n d' of
             Panic \<Rightarrow> Panic
           | OutOfFuel \<Rightarrow> OutOfFuel
           | Fail x e d'' \<Rightarrow> Fail res e d''
           | Ok val d'' \<Rightarrow>
               if length (stream d'') \<le> pos d'' then Fail (fmupd key val res) ErrorNoTerminator d''
               else
                 (case byte_at (stream d'') (pos d'') of
                    None \<Rightarrow> Panic
                  | Some c \<Rightarrow>
                      if c = CHR ''e'' then Ok (fmupd key val res) (d''\<lparr>pos := pos d'' + 1\<rparr>)
                      else dictLoop n (fmupd key val res) d'')))"

text \<open>
  \<open>Decode\<close> is \<open>nextObject\<close>. The bound it passes is never reached (theorem
  \<open>Decode_returns_or_panics\<close> below).
\<close>

definition Decode :: "Decoder \<Rightarrow> (bvalue option, bvalue) outcome" where
  "Decode d = nextObject (2 * length (stream d) + 1) d"

subsection \<open>Encoder\<close>

record Encoder =
  Bytes :: string

definition NewEncoder :: Encoder where
  "NewEncoder = \<lparr>Bytes = []\<rparr>"

definition encodeString :: "string \<Rightarrow> string" where
  "encodeString s =
     (if length s \<le> 0 then [] else decimal (int (length s)) @ '':'' @ s)"

definition encodeInteger :: "int64 \<Rightarrow> string" where
  "encodeInteger i = ''i'' @ Sprintd i @ ''e''"

text \<open>
  \<open>encodeObject\<close>, \<open>encodeList\<close> and \<open>encodeDict\<close> call each other through the
  elements of a list and the values of a map. The recursion goes over the value:
  \<open>encodeObject\<close> encodes the parts and hands their bytes to the body of \<open>encodeList\<close>
  or of \<open>encodeDict\<close>. (The case \<open>reflect.Int\<close> of \<open>encodeObject\<close> converts an \<open>int\<close>
  to \<open>int64\<close>; the values here hold an \<open>int64\<close> already.)

  The body of \<open>encodeList\<close>, given the encodings of the elements in order.
\<close>

definition list_frame :: "string list \<Rightarrow> string" where
  "list_frame bs = (if length bs \<le> 0 then [] else ''l'' @ concat bs @ ''e'')"

text \<open>
  The body of \<open>encodeDict\<close>, given the map from each key to the encoding of its value.
  The keys are collected in the order \<open>range\<close> gives them and sorted with
  \<open>sort.Strings\<close>: whatever that order, the result is the ascending list of the keys
  (lemma \<open>sort_keys_any_order\<close>). \<open>m[k]\<close> is read for keys of \<open>m\<close> only.
\<close>

definition dict_frame :: "(string, string) fmap \<Rightarrow> string" where
  "dict_frame bm =
     (if fcard (fmdom bm) \<le> 0 then []
      else ''d''
         @ concat (map (\<lambda>k. encodeString k @ the (fmlookup bm k)) (sorted_list_of_fset (fmdom bm)))
         @ ''e'')"

primrec encodeObject :: "bvalue \<Rightarrow> string" where
  "encodeObject (ByteString s) = encodeString s"
| "encodeObject (Integer i) = encodeInteger i"
| "encodeObject (BList list) = list_frame (map encodeObject list)"
| "encodeObject (Dictionary m) = dict_frame (fmmap encodeObject m)"

definition encodeList :: "bvalue list \<Rightarrow> string" where
  "encodeList list = encodeObject (BList list)"

definition encodeDict :: "(string, bvalue) fmap \<Rightarrow> string" where
  "encodeDict m = encodeObject (Dictionary m)"

text \<open>The method \<open>Encode\<close> appends to \<open>Bytes\<close>; the function \<open>Encode\<close> wraps it.\<close>

definition Encoder_Encode :: "Encoder \<Rightarrow> bvalue \<Rightarrow> Encoder" where
  "Encoder_Encode enc v =
     (let b = encodeObject v in if 0 < length b then enc\<lparr>Bytes := Bytes enc @ b\<rparr> else enc)"

definition Encode :: "bvalue \<Rightarrow> string" where
  "Encode v = Bytes (Encoder_Encode NewEncoder v)"

subsection \<open>Notions used in the properties\<close>

text \<open>The bytes of one dictionary entry: the encoded key, then the encoded value.\<close>

definition encode_entry :: "string \<times> bvalue \<Rightarrow> string" where
  "encode_entry kv = encodeString (fst kv) @ encodeObject (snd kv)"

text \<open>
  The map after the assignments \<open>m[k] = v\<close> for the pairs of a list, in the order of the
  list: how \<open>nextDict\<close> fills its result, and how a caller builds a dictionary entry by
  entry.
\<close>

definition assign_all :: "(string, bvalue) fmap \<Rightarrow> (string \<times> bvalue) list \<Rightarrow> (string, bvalue) fmap" where
  "assign_all m kvs = foldl (\<lambda>m kv. fmupd (fst kv) (snd kv) m) m kvs"

text \<open>
  Values without an empty part: no empty string, list or dictionary at any depth, keys of
  dictionaries included. The lengths of strings and keys are in the range of \<open>int\<close>, as
  the lengths of all Go strings are.
\<close>

primrec no_empty :: "bvalue \<Rightarrow> bool" where
  "no_empty (Integer i) = True"
| "no_empty (ByteString s) = (s \<noteq> [] \<and> int (length s) < 2 ^ 63)"
| "no_empty (BList list) = (list \<noteq> [] \<and> list_all (\<lambda>b. b) (map no_empty list))"
| "no_empty (Dictionary m) =
     (m \<noteq> fmempty
      \<and> fmpred (\<lambda>k b. k \<noteq> [] \<and> int (length k) < 2 ^ 63 \<and> b) (fmmap no_empty m))"

text \<open>
  A sequence of calls on the same decoder: the outcome of the call that follows \<open>n\<close>
  earlier calls which returned, each starting from the state the previous one left.
\<close>

fun Decode_again :: "nat \<Rightarrow> Decoder \<Rightarrow> (bvalue option, bvalue) outcome" where
  "Decode_again 0 d = Decode d"
| "Decode_again (Suc n) d =
     (case Decode d of
        Panic \<Rightarrow> Panic
      | OutOfFuel \<Rightarrow> OutOfFuel
      | Fail r e d' \<Rightarrow> Decode_again n d'
      | Ok v d' \<Rightarrow> Decode_again n d')"

text \<open>The cursor has moved forward, inside the same buffer.\<close>

definition advanced :: "Decoder \<Rightarrow> Decoder \<Rightarrow> bool" where
  "advanced d d' \<longleftrightarrow> stream d' = stream d \<and> pos d < pos d' \<and> pos d' \<le> length (stream d)"

section \<open>Properties\<close>

subsection \<open>The encoder, unfolded\<close>

lemma Encode_encodeObject: "Encode v = encodeObject v"
  by (simp add: Encode_def Encoder_Encode_def NewEncoder_def Let_def)

lemma encodeList_unfold:
  "encodeList list = (if length list \<le> 0 then [] else ''l'' @ concat (map encodeObject list) @ ''e'')"
  by (simp add: encodeList_def list_frame_def)

lemma fmdom_fempty_iff: "fmdom m = {||} \<longleftrightarrow> m = fmempty"
proof
  assume a: "fmdom m = {||}"
  show "m = fmempty"
  proof (rule fmap_ext)
    fix x
    have "x |\<notin>| fmdom m" using a by simp
    then show "fmlookup m x = fmlookup fmempty x" by (simp add: fmdom_notD)
  qed
qed simp

lemma fcard_le0_iff: "fcard (fmdom m) \<le> 0 \<longleftrightarrow> m = fmempty"
  by (simp add: fmdom_fempty_iff)

lemma lookup_fmmap_the:
  "k |\<in>| fmdom m \<Longrightarrow> the (fmlookup (fmmap f m) k) = f (the (fmlookup m k))"
  by (auto simp: fmlookup_dom_iff)

lemma dict_frame_fmmap:
  "dict_frame (fmmap f m) =
     (if fcard (fmdom m) \<le> 0 then []
      else ''d'' @ concat (map (\<lambda>k. encodeString k @ f (the (fmlookup m k))) (sorted_list_of_fset (fmdom m))) @ ''e'')"
proof -
  have "map (\<lambda>k. encodeString k @ the (fmlookup (fmmap f m) k)) (sorted_list_of_fset (fmdom m))
      = map (\<lambda>k. encodeString k @ f (the (fmlookup m k))) (sorted_list_of_fset (fmdom m))"
    by (rule map_cong [OF refl]) (simp only: sorted_list_of_fset_simps lookup_fmmap_the)
  then show ?thesis
    unfolding dict_frame_def fmdom_map by (simp only:)
qed

lemma encodeDict_unfold:
  "encodeDict m =
     (if fcard (fmdom m) \<le> 0 then []
      else ''d''
         @ concat (map (\<lambda>k. encodeString k @ encodeObject (the (fmlookup m k)))
                     (sorted_list_of_fset (fmdom m)))
         @ ''e'')"
  by (simp only: encodeDict_def encodeObject.simps dict_frame_fmmap)

lemma encodeString_Nil_iff: "encodeString s = [] \<longleftrightarrow> s = []"
  by (simp add: encodeString_def)

subsection \<open>Empty values\<close>

text \<open>
  Claim C3 says that the empty string encodes as \<open>0:\<close>, the empty list as \<open>le\<close> and the
  empty dictionary as \<open>de\<close>, never as no bytes at all. \<open>encodeString\<close>, \<open>encodeList\<close>
  and \<open>encodeDict\<close> each begin with a guard that returns \<open>nil\<close> for an empty argument,
  and \<open>Encode\<close> appends only a result of positive length: all three encode as the empty
  byte sequence.
\<close>

theorem encode_empty_counterexample:
  "Encode (ByteString []) = [] \<and> Encode (ByteString []) \<noteq> ''0:''
   \<and> Encode (BList []) = [] \<and> Encode (BList []) \<noteq> ''le''
   \<and> Encode (Dictionary fmempty) = [] \<and> Encode (Dictionary fmempty) \<noteq> ''de''"
  by code_simp

text \<open>
  Claim C3, amended: the encoding of a value is the empty byte sequence exactly when the
  value is the empty string, the empty list or the empty dictionary; every other value
  encodes to at least one byte.
\<close>

theorem encode_empty_iff:
  "Encode v = [] \<longleftrightarrow> v = ByteString [] \<or> v = BList [] \<or> v = Dictionary fmempty"
proof (cases v)
  case (Integer i)
  then show ?thesis by (simp add: Encode_encodeObject encodeInteger_def)
next
  case (ByteString s)
  then show ?thesis by (simp add: Encode_encodeObject encodeString_Nil_iff)
next
  case (BList xs)
  then show ?thesis by (simp add: Encode_encodeObject list_frame_def)
next
  case (Dictionary m)
  then show ?thesis
    using fcard_le0_iff [of m] by (simp add: Encode_encodeObject dict_frame_fmmap)
qed

subsection \<open>Integers: sign and zero\<close>

text \<open>
  Claim C4 says that \<open>i-0e\<close> and \<open>i-e\<close> both fail. \<open>nextInteger\<close> skips one \<open>-\<close>,
  checks that digits follow and that a leading \<open>0\<close> stands alone, and hands the text to
  \<open>strconv.ParseInt\<close>, which reads \<open>-0\<close> as 0: nothing looks at the sign of a zero.
\<close>

theorem negative_zero_counterexample:
  "Decode (NewDecoder ''i-0e'') = Ok (Integer 0) \<lparr>stream = ''i-0e'', pos = 4, Consumed = True\<rparr>"
  by code_simp

text \<open>
  Claim C4, amended: decoding \<open>i-0e\<close> succeeds and returns the integer 0, with the whole
  input consumed; decoding \<open>i-e\<close> fails with the error for an integer without digits
  (\<open>res\<close> holds the zero value of \<open>int64\<close> then).
\<close>

theorem negative_zero_accepted_bare_minus_rejected:
  "Decode (NewDecoder ''i-0e'') = Ok (Integer 0) \<lparr>stream = ''i-0e'', pos = 4, Consumed = True\<rparr>
   \<and> Decode (NewDecoder ''i-e'')
       = Fail (Some (Integer 0)) NoBytesInInteger \<lparr>stream = ''i-e'', pos = 1, Consumed = False\<rparr>"
  by code_simp

subsection \<open>Reads past the end of the buffer\<close>

text \<open>
  Claim C10 says that \<open>Decode\<close> returns a value or an error for every buffer and never
  reads at or beyond its length. \<open>nextObject\<close> reads \<open>self.stream[self.pos]\<close> without a
  check, and so do \<open>nextInteger\<close>, \<open>nextList\<close> and \<open>nextDict\<close> after they skip the first
  byte: the empty buffer, a lone \<open>l\<close>, \<open>d\<close> or \<open>i\<close>, and a dictionary that ends after a
  key all make the decoder panic with an index out of range.
\<close>

theorem truncated_input_panics:
  "Decode (NewDecoder []) = Panic
   \<and> Decode (NewDecoder ''l'') = Panic
   \<and> Decode (NewDecoder ''d'') = Panic
   \<and> Decode (NewDecoder ''i'') = Panic
   \<and> Decode (NewDecoder ''i-'') = Panic
   \<and> Decode (NewDecoder ''d1:a'') = Panic"
  by code_simp

subsection \<open>Scanning digits\<close>

lemma is_digit_code: "is_digit c \<longleftrightarrow> 48 \<le> (of_char c :: nat) \<and> (of_char c :: nat) \<le> 57"
  by (simp add: is_digit_def less_eq_char_def)

lemma digit_not_special:
  "is_digit c \<Longrightarrow> c \<noteq> CHR ''e'' \<and> c \<noteq> CHR '':'' \<and> c \<noteq> CHR ''-'' \<and> c \<noteq> CHR ''+''
     \<and> c \<noteq> CHR ''i'' \<and> c \<noteq> CHR ''l'' \<and> c \<noteq> CHR ''d''"
  by (auto simp: is_digit_code)

lemma digit_in_range: "is_digit c \<Longrightarrow> \<not> (c < CHR ''0'' \<or> CHR ''9'' < c)"
  by (auto simp: is_digit_def)

lemma intLoop_digits:
  "list_all is_digit ds \<Longrightarrow>
   intLoop (pre @ ds @ CHR ''e'' # rest) (length pre) = ScanAt (length pre + length ds)"
proof (induction ds arbitrary: pre)
  case Nil
  show ?case by (subst intLoop.simps) simp
next
  case (Cons c cs)
  from Cons.prems have c: "is_digit c" and cs: "list_all is_digit cs" by simp_all
  have "intLoop (pre @ (c # cs) @ CHR ''e'' # rest) (length pre)
        = intLoop (pre @ (c # cs) @ CHR ''e'' # rest) (length pre + 1)"
    using digit_not_special [OF c] digit_in_range [OF c]
    by (subst intLoop.simps) simp
  also have "\<dots> = intLoop ((pre @ [c]) @ cs @ CHR ''e'' # rest) (length (pre @ [c]))"
    by simp
  also have "\<dots> = ScanAt (length (pre @ [c]) + length cs)"
    by (rule Cons.IH [OF cs])
  finally show ?case by simp
qed

lemma strLoop_to_colon:
  "CHR '':'' \<notin> set ds \<Longrightarrow>
   strLoop (pre @ ds @ CHR '':'' # rest) (length pre) = ScanAt (length pre + length ds)"
proof (induction ds arbitrary: pre)
  case Nil
  show ?case by (subst strLoop.simps) simp
next
  case (Cons c cs)
  from Cons.prems have c: "c \<noteq> CHR '':''" and cs: "CHR '':'' \<notin> set cs" by auto
  have "strLoop (pre @ (c # cs) @ CHR '':'' # rest) (length pre)
        = strLoop (pre @ (c # cs) @ CHR '':'' # rest) (length pre + 1)"
    using c by (subst strLoop.simps) simp
  also have "\<dots> = strLoop ((pre @ [c]) @ cs @ CHR '':'' # rest) (length (pre @ [c]))"
    by simp
  also have "\<dots> = ScanAt (length (pre @ [c]) + length cs)"
    by (rule Cons.IH [OF cs])
  finally show ?case by simp
qed

lemma digits_no_colon: "list_all is_digit ds \<Longrightarrow> CHR '':'' \<notin> set ds"
  using digit_not_special by (auto simp: list_all_iff)

lemma digit_val_range: "is_digit c \<Longrightarrow> 0 \<le> digit_val c \<and> digit_val c \<le> 9"
proof -
  assume "is_digit c"
  then have "48 \<le> (of_char c :: nat) \<and> (of_char c :: nat) \<le> 57" by (simp add: is_digit_code)
  moreover have "(of_char c :: int) = int (of_char c)" by (simp add: of_nat_of_char)
  ultimately show ?thesis by (simp add: digit_val_def)
qed

lemma foldl_dec_nonneg:
  "list_all is_digit ds \<Longrightarrow> 0 \<le> acc \<Longrightarrow> 0 \<le> foldl (\<lambda>acc c. 10 * acc + digit_val c) acc ds"
proof (induction ds arbitrary: acc)
  case Nil
  then show ?case by simp
next
  case (Cons c cs)
  from Cons.prems have "0 \<le> digit_val c" by (simp add: digit_val_range)
  with Cons show ?case by simp
qed

lemma dec_nonneg: "list_all is_digit ds \<Longrightarrow> 0 \<le> dec ds"
  by (simp add: dec_def foldl_dec_nonneg)

lemma ParseInt_digits:
  assumes "ds \<noteq> []" "list_all is_digit ds"
  shows "ParseInt ds = (if 2 ^ 63 \<le> dec ds then (word_of_int (2 ^ 63 - 1), Some ErrRange)
                        else (word_of_int (dec ds), None))"
proof -
  from assms have "is_digit (hd ds)" by (cases ds) simp_all
  from digit_not_special [OF this] assms show ?thesis
    by (simp add: ParseInt_def)
qed

lemma ParseInt_minus_digits:
  assumes "ds \<noteq> []" "list_all is_digit ds"
  shows "ParseInt (CHR ''-'' # ds) = (if 2 ^ 63 < dec ds then (word_of_int (- (2 ^ 63)), Some ErrRange)
                        else (word_of_int (- dec ds), None))"
  using assms by (simp add: ParseInt_def)

lemma sint_word_of_int_small:
  "- (2 ^ 63) \<le> n \<Longrightarrow> n < 2 ^ 63 \<Longrightarrow> sint (word_of_int n :: int64) = n"
  by (simp add: sint_sbintrunc' signed_take_bit_int_eq_self)

lemma Atoi_digits:
  assumes "ds \<noteq> []" "list_all is_digit ds"
  shows "Atoi ds = (if 2 ^ 63 \<le> dec ds then Inl ErrRange else Inr (dec ds))"
  using dec_nonneg [OF assms(2)]
  by (simp add: Atoi_def ParseInt_digits [OF assms] sint_word_of_int_small)

lemma slice_middle:
  "slice (pre @ xs @ rest) (length pre) (int (length pre + length xs)) = Some xs"
  by (simp add: slice_def)

lemma byte_at_middle: "byte_at (pre @ c # rest) (length pre) = Some c"
  by (simp add: byte_at_def)


subsection \<open>What \<open>nextString\<close> and \<open>nextInteger\<close> return on well-formed text\<close>

lemma nextString_at:
  assumes s: "stream d = pre @ ds @ CHR '':'' # rest"
    and p: "pos d = length pre"
    and ne: "ds \<noteq> []"
    and dig: "list_all is_digit ds"
  shows "nextString d =
     (if 2 ^ 63 \<le> dec ds then Fail [] (BadLengthSpecifier ErrRange) d
      else if int (length rest) < dec ds then Fail [] LengthLongerThanBuffer d
      else Ok (take (nat (dec ds)) rest) (d\<lparr>pos := length pre + length ds + 1 + nat (dec ds)\<rparr>))"
proof -
  obtain c cs where ds: "ds = c # cs" using ne by (cases ds) auto
  have c: "is_digit c" using dig ds by simp
  have first: "byte_at (stream d) (pos d) = Some c"
    unfolding s p ds using byte_at_middle [of pre c "cs @ CHR '':'' # rest"] by simp
  have loop: "strLoop (stream d) (pos d) = ScanAt (length pre + length ds)"
    unfolding s p by (rule strLoop_to_colon [OF digits_no_colon [OF dig]])
  have len_str: "slice (stream d) (pos d) (int (length pre + length ds)) = Some ds"
    unfolding s p by (rule slice_middle)
  have atoi: "Atoi ds = (if 2 ^ 63 \<le> dec ds then Inl ErrRange else Inr (dec ds))"
    by (rule Atoi_digits [OF ne dig])
  have left: "int (length (stream d) - (length pre + length ds)) = int (length rest) + 1"
    unfolding s by simp
  have body: "slice (stream d) (length pre + length ds + 1) (int (length pre + length ds + 1) + dec ds)
        = Some (take (nat (dec ds)) rest)"
    if "dec ds \<le> int (length rest)"
  proof -
    have ar: "nat (int (length pre + length ds + 1) + dec ds) - (length pre + length ds + 1) = nat (dec ds)"
      using dec_nonneg [OF dig] by linarith
    have dr: "drop (length pre + length ds + 1) (stream d) = rest"
      unfolding s by simp
    show ?thesis
      unfolding slice_def ar dr using that dec_nonneg [OF dig] s by simp
  qed
  have r: "\<not> (c < CHR ''0'' \<or> c > CHR ''9'')" by (rule digit_in_range [OF c])
  have step: "nextString d =
      (case Atoi ds of
         Inl e \<Rightarrow> Fail [] (BadLengthSpecifier e) d
       | Inr l \<Rightarrow>
           if int (length (stream d) - (length pre + length ds)) \<le> l
           then Fail [] LengthLongerThanBuffer d
           else
             (case slice (stream d) (length pre + length ds + 1) (int (length pre + length ds + 1) + l) of
                None \<Rightarrow> Panic
              | Some res \<Rightarrow> Ok res (d\<lparr>pos := nat (int (length pre + length ds + 1) + l)\<rparr>)))"
    by (simp only: nextString_def first option.case r if_False loop scan.case len_str)
  show ?thesis
  proof (cases "2 ^ 63 \<le> dec ds")
    case True
    then show ?thesis by (simp only: step atoi if_True sum.case)
  next
    case big: False
    show ?thesis
    proof (cases "int (length rest) < dec ds")
      case True
      then have "int (length rest) + 1 \<le> dec ds" by simp
      with big True show ?thesis by (simp only: step atoi if_False if_True sum.case left)
    next
      case False
      then have le: "dec ds \<le> int (length rest)" and nle: "\<not> int (length rest) + 1 \<le> dec ds" by simp_all
      have ps: "nat (int (length pre + length ds + 1) + dec ds) = length pre + length ds + 1 + nat (dec ds)"
        using dec_nonneg [OF dig] by linarith
      from big False show ?thesis
        by (simp only: step atoi if_False sum.case left nle body [OF le] option.case ps)
    qed
  qed
qed


lemma nextInteger_core:
  assumes "byte_at (stream d) (pos d) = Some CHR ''i''"
    and "byte_at (stream d) (pos d + 1) = Some c1"
    and "start = (if c1 = CHR ''-'' then pos d + 1 + 1 else pos d + 1)"
    and "intLoop (stream d) start = ScanAt idx"
    and "start \<noteq> idx"
    and "byte_at (stream d) start = Some c0"
    and "slice (stream d) (pos d + 1) (int idx) = Some s"
  shows "nextInteger d =
     (if c0 = CHR ''0'' \<and> 1 < idx - start then Fail 0 LeadingZeros (d\<lparr>pos := pos d + 1\<rparr>)
      else (case ParseInt s of
              (res, Some e) \<Rightarrow> Fail res (ParseIntError e) (d\<lparr>pos := pos d + 1\<rparr>)
            | (res, None) \<Rightarrow> Ok res (d\<lparr>pos := idx + 1\<rparr>)))"
proof (cases "c1 = CHR ''-''")
  case True
  with assms show ?thesis by (simp add: nextInteger_def Let_def)
next
  case False
  with assms show ?thesis by (simp add: nextInteger_def Let_def)
qed

lemma nextInteger_at:
  assumes s: "stream d = pre @ CHR ''i'' # sign @ ds @ CHR ''e'' # rest"
    and p: "pos d = length pre"
    and sg: "sign = [] \<or> sign = ''-''"
    and ne: "ds \<noteq> []"
    and dig: "list_all is_digit ds"
  shows "nextInteger d =
     (if hd ds = CHR ''0'' \<and> 1 < length ds then Fail 0 LeadingZeros (d\<lparr>pos := length pre + 1\<rparr>)
      else (case ParseInt (sign @ ds) of
              (res, Some e) \<Rightarrow> Fail res (ParseIntError e) (d\<lparr>pos := length pre + 1\<rparr>)
            | (res, None) \<Rightarrow> Ok res (d\<lparr>pos := length pre + 1 + length sign + length ds + 1\<rparr>)))"
proof -
  obtain c cs where ds: "ds = c # cs" using ne by (cases ds) auto
  have c: "is_digit c" using dig ds by simp
  define start where "start = length pre + 1 + length sign"
  define idx where "idx = start + length ds"
  have a1: "byte_at (stream d) (pos d) = Some CHR ''i''"
    unfolding s p by (rule byte_at_middle)
  have a2: "byte_at (stream d) (pos d + 1) = Some (hd (sign @ ds))"
    using sg byte_at_middle [of "pre @ ''i''" "hd (sign @ ds)" "tl (sign @ ds) @ CHR ''e'' # rest"]
    unfolding s p ds by auto
  have a3: "start = (if hd (sign @ ds) = CHR ''-'' then pos d + 1 + 1 else pos d + 1)"
    using sg digit_not_special [OF c] unfolding start_def p ds by auto
  have a4: "intLoop (stream d) start = ScanAt idx"
    using intLoop_digits [OF dig, of "pre @ CHR ''i'' # sign" rest]
    unfolding s start_def idx_def by simp
  have a5: "start \<noteq> idx" unfolding idx_def ds by simp
  have a6: "byte_at (stream d) start = Some (hd ds)"
    using byte_at_middle [of "pre @ CHR ''i'' # sign" c "cs @ CHR ''e'' # rest"]
    unfolding s start_def ds by simp
  have a7: "slice (stream d) (pos d + 1) (int idx) = Some (sign @ ds)"
    using slice_middle [of "pre @ ''i''" "sign @ ds" "CHR ''e'' # rest"]
    unfolding s p idx_def start_def by (simp add: add.assoc)
  have "idx - start = length ds" unfolding idx_def by simp
  moreover have "idx + 1 = length pre + 1 + length sign + length ds + 1"
    unfolding idx_def start_def by simp
  ultimately show ?thesis
    using nextInteger_core [OF a1 a2 a3 a4 a5 a6 a7] unfolding p by simp
qed


lemma Decode_unfold: "Decode d = nextObject (Suc (2 * length (stream d))) d"
  by (simp add: Decode_def)

lemma nextObject_int:
  "\<not> Consumed d \<Longrightarrow> byte_at (stream d) (pos d) = Some CHR ''i'' \<Longrightarrow>
   nextObject (Suc n) d = boxed Integer (nextInteger d)"
  by simp

lemma nextObject_str:
  "\<not> Consumed d \<Longrightarrow> byte_at (stream d) (pos d) = Some c \<Longrightarrow> is_digit c \<Longrightarrow>
   nextObject (Suc n) d = boxed ByteString (nextString d)"
  using digit_not_special [of c] by (simp add: is_digit_def)

lemma nextObject_list:
  "\<not> Consumed d \<Longrightarrow> byte_at (stream d) (pos d) = Some CHR ''l'' \<Longrightarrow>
   nextObject (Suc n) d = boxed BList (nextList n d)"
  by simp

lemma nextObject_dict:
  "\<not> Consumed d \<Longrightarrow> byte_at (stream d) (pos d) = Some CHR ''d'' \<Longrightarrow>
   nextObject (Suc n) d = boxed Dictionary (nextDict n d)"
  by simp

subsection \<open>Leading zeros\<close>

text \<open>
  Claim C5: an integer whose digit run starts with \<open>0\<close> and has more than one digit
  (with or without a sign before it) fails, with the error for leading zeros; decoding
  \<open>i0e\<close> succeeds and returns 0. On the failure the cursor stands after the \<open>i\<close> and
  \<open>res\<close> holds the zero value of \<open>int64\<close>.
\<close>

theorem leading_zero_rejected:
  assumes "sign = [] \<or> sign = ''-''" and "ds \<noteq> []" and "list_all is_digit ds"
  shows "Decode (NewDecoder (''i'' @ sign @ ''0'' @ ds @ ''e'' @ rest))
           = Fail (Some (Integer 0)) LeadingZeros
               \<lparr>stream = ''i'' @ sign @ ''0'' @ ds @ ''e'' @ rest, pos = 1, Consumed = False\<rparr>
         \<and> Decode (NewDecoder ''i0e'') = Ok (Integer 0) \<lparr>stream = ''i0e'', pos = 3, Consumed = True\<rparr>"
proof
  let ?s = "''i'' @ sign @ ''0'' @ ds @ ''e'' @ rest"
  let ?d = "NewDecoder ?s"
  have st: "stream ?d = [] @ CHR ''i'' # sign @ (CHR ''0'' # ds) @ CHR ''e'' # rest"
    by (simp add: NewDecoder_def)
  have ps: "pos ?d = length ([] :: string)" by (simp add: NewDecoder_def)
  have dg: "list_all is_digit (CHR ''0'' # ds)" using assms(3) by (simp add: is_digit_code)
  have ni: "nextInteger ?d = Fail 0 LeadingZeros (?d\<lparr>pos := 1\<rparr>)"
    using nextInteger_at [OF st ps assms(1) _ dg] assms(2) by simp
  have b: "byte_at (stream ?d) (pos ?d) = Some CHR ''i''"
    by (simp add: NewDecoder_def byte_at_def)
  have nc: "\<not> Consumed ?d" by (simp add: NewDecoder_def)
  have "Decode ?d = boxed Integer (nextInteger ?d)"
    unfolding Decode_unfold by (rule nextObject_int [OF nc b])
  then have "Decode ?d = boxed Integer (Fail 0 LeadingZeros (?d\<lparr>pos := 1\<rparr>))"
    by (simp only: ni)
  then show "Decode ?d = Fail (Some (Integer 0)) LeadingZeros \<lparr>stream = ?s, pos = 1, Consumed = False\<rparr>"
    by (simp add: boxed_def mark_consumed_def NewDecoder_def)
next
  show "Decode (NewDecoder ''i0e'') = Ok (Integer 0) \<lparr>stream = ''i0e'', pos = 3, Consumed = True\<rparr>"
    by code_simp
qed

theorem leading_zero_rejected_witness:
  "Decode (NewDecoder ''i012e'')
     = Fail (Some (Integer 0)) LeadingZeros \<lparr>stream = ''i012e'', pos = 1, Consumed = False\<rparr>
   \<and> Decode (NewDecoder ''i00e'')
     = Fail (Some (Integer 0)) LeadingZeros \<lparr>stream = ''i00e'', pos = 1, Consumed = False\<rparr>
   \<and> Decode (NewDecoder ''i-012e'')
     = Fail (Some (Integer 0)) LeadingZeros \<lparr>stream = ''i-012e'', pos = 1, Consumed = False\<rparr>
   \<and> Decode (NewDecoder ''i0e'') = Ok (Integer 0) \<lparr>stream = ''i0e'', pos = 3, Consumed = True\<rparr>"
proof -
  have d12: "list_all is_digit ''12''" and d0: "list_all is_digit ''0''"
    by (simp_all add: is_digit_code)
  show ?thesis
    using leading_zero_rejected [of "[]" "''12''" "[]", OF _ _ d12]
      leading_zero_rejected [of "[]" "''0''" "[]", OF _ _ d0]
      leading_zero_rejected [of "''-''" "''12''" "[]", OF _ _ d12]
    by simp
qed

subsection \<open>Declared string lengths\<close>

text \<open>
  Claim C6 says that every declared length greater than the number of bytes after the
  colon fails with the insufficient-data error. The length goes through
  \<open>strconv.Atoi\<close> first: a length that does not fit an \<open>int\<close> fails there, with the
  error for a length specifier that cannot be parsed.
\<close>

theorem string_length_counterexample:
  "Decode (NewDecoder ''9223372036854775808:abc'')
     = Fail (Some (ByteString [])) (BadLengthSpecifier ErrRange)
         \<lparr>stream = ''9223372036854775808:abc'', pos = 0, Consumed = False\<rparr>
   \<and> BadLengthSpecifier ErrRange \<noteq> LengthLongerThanBuffer"
  by code_simp

text \<open>
  Claim C6, amended: for a length field of decimal digits whose value fits an \<open>int\<close>
  (below \<open>2^63\<close>), decoding fails with the insufficient-data error, returning the empty
  string as \<open>res\<close> and leaving the cursor where it was, when the value is greater than the
  number of bytes after the colon; it succeeds with exactly those bytes, the cursor at the
  end, when the value equals that number. A value of \<open>2^63\<close> or more fails with the
  error for an unparsable length specifier instead.
\<close>

theorem string_length_checked:
  assumes "ds \<noteq> []" and "list_all is_digit ds"
  shows "(dec ds < 2 ^ 63 \<and> int (length rest) < dec ds \<longrightarrow>
            Decode (NewDecoder (ds @ '':'' @ rest))
              = Fail (Some (ByteString [])) LengthLongerThanBuffer
                  \<lparr>stream = ds @ '':'' @ rest, pos = 0, Consumed = False\<rparr>)
       \<and> (dec ds < 2 ^ 63 \<and> int (length rest) = dec ds \<longrightarrow>
            Decode (NewDecoder (ds @ '':'' @ rest))
              = Ok (ByteString rest)
                  \<lparr>stream = ds @ '':'' @ rest, pos = length (ds @ '':'' @ rest), Consumed = True\<rparr>)
       \<and> (2 ^ 63 \<le> dec ds \<longrightarrow>
            Decode (NewDecoder (ds @ '':'' @ rest))
              = Fail (Some (ByteString [])) (BadLengthSpecifier ErrRange)
                  \<lparr>stream = ds @ '':'' @ rest, pos = 0, Consumed = False\<rparr>)"
proof -
  let ?s = "ds @ '':'' @ rest"
  let ?d = "NewDecoder ?s"
  obtain c cs where ds: "ds = c # cs" using assms(1) by (cases ds) auto
  have c: "is_digit c" using assms(2) ds by simp
  have st: "stream ?d = [] @ ds @ CHR '':'' # rest" by (simp add: NewDecoder_def)
  have ps: "pos ?d = length ([] :: string)" by (simp add: NewDecoder_def)
  have b: "byte_at (stream ?d) (pos ?d) = Some c" by (simp add: NewDecoder_def byte_at_def ds)
  have nc: "\<not> Consumed ?d" by (simp add: NewDecoder_def)
  have "Decode ?d = boxed ByteString (nextString ?d)"
    unfolding Decode_unfold by (rule nextObject_str [OF nc b c])
  also note nextString_at [OF st ps assms]
  finally show ?thesis
    using dec_nonneg [OF assms(2)]
    by (auto simp: boxed_def mark_consumed_def NewDecoder_def)
qed

theorem string_length_checked_witness:
  "Decode (NewDecoder ''6:world'')
     = Fail (Some (ByteString [])) LengthLongerThanBuffer \<lparr>stream = ''6:world'', pos = 0, Consumed = False\<rparr>
   \<and> Decode (NewDecoder ''5:hello'')
     = Ok (ByteString ''hello'') \<lparr>stream = ''5:hello'', pos = 7, Consumed = True\<rparr>
   \<and> Decode (NewDecoder ''9223372036854775808:abc'')
     = Fail (Some (ByteString [])) (BadLengthSpecifier ErrRange)
         \<lparr>stream = ''9223372036854775808:abc'', pos = 0, Consumed = False\<rparr>"
proof -
  have d6: "list_all is_digit ''6''" and d5: "list_all is_digit ''5''"
    and dbig: "list_all is_digit ''9223372036854775808''"
    by (simp_all add: is_digit_code)
  have v6: "dec ''6'' = 6" and v5: "dec ''5'' = 5" and vbig: "dec ''9223372036854775808'' = 2 ^ 63"
    by (simp_all add: dec_def digit_val_def)
  show ?thesis
    using string_length_checked [of "''6''" "''world''", OF _ d6]
      string_length_checked [of "''5''" "''hello''", OF _ d5]
      string_length_checked [of "''9223372036854775808''" "''abc''", OF _ dbig]
    by (simp add: v6 v5 vbig)
qed

subsection \<open>The consumed flag\<close>

lemma nextObject_Ok_marked:
  "nextObject (Suc n) d = Ok v d' \<Longrightarrow> \<exists>d0. d' = mark_consumed d0"
  by (auto simp: boxed_def split: if_splits option.splits outcome.splits)

lemma mark_consumed_at_end:
  "length (stream (mark_consumed d0)) \<le> pos (mark_consumed d0) \<Longrightarrow> Consumed (mark_consumed d0)"
  by (auto simp: mark_consumed_def split: if_splits)

lemma Decode_Consumed: "Consumed d \<Longrightarrow> Decode d = Fail None ErrorConsumed d"
  by (simp add: Decode_def)

text \<open>
  Claim C8: after a successful \<open>Decode\<close> that leaves the cursor at the end of the
  buffer, \<open>Consumed\<close> is true, and every further call of \<open>Decode\<close> returns
  \<open>ErrorConsumed\<close> (with \<open>res = nil\<close>, the decoder unchanged), not a value and not
  another error.
\<close>

theorem consumed_then_exhausted:
  assumes "Decode d = Ok v d'" and "pos d' = length (stream d')"
  shows "Consumed d' \<and> (\<forall>n. Decode_again n d' = Fail None ErrorConsumed d')"
proof -
  from assms(1) obtain d0 where "d' = mark_consumed d0"
    unfolding Decode_unfold by (blast dest: nextObject_Ok_marked)
  with assms(2) have c: "Consumed d'" using mark_consumed_at_end [of d0] by simp
  have "Decode_again n d' = Fail None ErrorConsumed d'" for n
    by (induction n) (simp_all add: Decode_Consumed [OF c])
  with c show ?thesis by simp
qed

theorem consumed_then_exhausted_witness:
  "Decode (NewDecoder ''i23e'') = Ok (Integer 23) \<lparr>stream = ''i23e'', pos = 4, Consumed = True\<rparr>
   \<and> Consumed \<lparr>stream = ''i23e'', pos = 4, Consumed = True\<rparr>
   \<and> (\<forall>n. Decode_again n \<lparr>stream = ''i23e'', pos = 4, Consumed = True\<rparr>
         = Fail None ErrorConsumed \<lparr>stream = ''i23e'', pos = 4, Consumed = True\<rparr>)"
proof -
  have ok: "Decode (NewDecoder ''i23e'') = Ok (Integer 23) \<lparr>stream = ''i23e'', pos = 4, Consumed = True\<rparr>"
    by code_simp
  show ?thesis
    using consumed_then_exhausted [OF ok] ok by simp
qed


subsection \<open>Progress and termination of the decoder\<close>

lemma advanced_trans: "advanced d d1 \<Longrightarrow> advanced d1 d2 \<Longrightarrow> advanced d d2"
  by (auto simp: advanced_def)

lemma advanced_mark [simp]: "advanced d (mark_consumed d') \<longleftrightarrow> advanced d d'"
  by (simp add: advanced_def mark_consumed_def)

lemma byte_at_Some: "byte_at s i = Some c \<Longrightarrow> i < length s"
  by (simp add: byte_at_def split: if_splits)

lemma advanced_skip:
  "byte_at (stream d) (pos d) = Some c \<Longrightarrow> advanced d (d\<lparr>pos := pos d + 1\<rparr>)"
  by (auto simp: advanced_def dest: byte_at_Some)

lemma advanced_skip2:
  "advanced d d1 \<Longrightarrow> byte_at (stream d1) (pos d1) = Some c \<Longrightarrow> advanced d (d1\<lparr>pos := pos d1 + 1\<rparr>)"
  by (auto simp: advanced_def dest: byte_at_Some)

lemma intLoop_ScanAt: "intLoop s i = ScanAt idx \<Longrightarrow> i \<le> idx \<and> idx < length s"
proof (induction s i rule: intLoop.induct)
  case (1 s i)
  show ?case
  proof (cases "\<not> length s \<le> i \<and> s ! i \<noteq> CHR ''e'' \<and> \<not> (s ! i < CHR ''0'' \<or> s ! i > CHR ''9'')
                  \<and> \<not> length s \<le> i + 1")
    case True
    then have "intLoop s i = intLoop s (i + 1)" by (subst intLoop.simps) simp
    with "1.prems" have "intLoop s (i + 1) = ScanAt idx" by simp
    with True "1.IH" have "i + 1 \<le> idx \<and> idx < length s" by blast
    then show ?thesis by simp
  next
    case False
    with "1.prems" show ?thesis
      by (subst (asm) intLoop.simps) (auto split: if_splits)
  qed
qed

lemma strLoop_ScanAt: "strLoop s i = ScanAt idx \<Longrightarrow> i \<le> idx \<and> idx < length s"
proof (induction s i rule: strLoop.induct)
  case (1 s i)
  show ?case
  proof (cases "\<not> length s \<le> i \<and> s ! i \<noteq> CHR '':'' \<and> \<not> length s \<le> i + 1")
    case True
    then have "strLoop s i = strLoop s (i + 1)" by (subst strLoop.simps) simp
    with "1.prems" have "strLoop s (i + 1) = ScanAt idx" by simp
    with True "1.IH" have "i + 1 \<le> idx \<and> idx < length s" by blast
    then show ?thesis by simp
  next
    case False
    with "1.prems" show ?thesis
      by (subst (asm) strLoop.simps) (auto split: if_splits)
  qed
qed

lemma nextInteger_advanced: "nextInteger d = Ok v d' \<Longrightarrow> advanced d d'"
  unfolding nextInteger_def Let_def
  by (auto simp: advanced_def split: option.splits if_splits scan.splits prod.splits
           dest!: intLoop_ScanAt)

lemma slice_Some_bounds: "slice s lo hi = Some r \<Longrightarrow> int lo \<le> hi \<and> hi \<le> int (length s)"
  by (simp add: slice_def split: if_splits)

lemma nextString_advanced:
  assumes "nextString d = Ok v d'"
  shows "advanced d d'"
proof -
  from assms obtain len_end l r where
    loop: "strLoop (stream d) (pos d) = ScanAt len_end"
    and sl: "slice (stream d) (len_end + 1) (int (len_end + 1) + l) = Some r"
    and d': "d' = d\<lparr>pos := nat (int (len_end + 1) + l)\<rparr>"
    unfolding nextString_def
    by (auto split: option.splits if_splits scan.splits sum.splits)
  from strLoop_ScanAt [OF loop] have "pos d \<le> len_end" by simp
  moreover from slice_Some_bounds [OF sl]
  have "int (len_end + 1) \<le> int (len_end + 1) + l" "int (len_end + 1) + l \<le> int (length (stream d))"
    by simp_all
  ultimately show ?thesis unfolding advanced_def d' by simp linarith
qed

lemma boxed_Ok:
  "boxed f r = Ok v d' \<Longrightarrow> \<exists>x d0. r = Ok x d0 \<and> v = f x \<and> d' = mark_consumed d0"
  by (cases r) (simp_all add: boxed_def)

lemma boxed_OutOfFuel [simp]: "boxed f r = OutOfFuel \<longleftrightarrow> r = OutOfFuel"
  by (cases r) (simp_all add: boxed_def)

lemma nextInteger_fuel [simp]: "nextInteger d \<noteq> OutOfFuel"
proof
  assume "nextInteger d = OutOfFuel"
  then show False
    unfolding nextInteger_def Let_def
    by (simp split: option.splits if_splits scan.splits prod.splits)
qed

lemma nextString_fuel [simp]: "nextString d \<noteq> OutOfFuel"
proof
  assume "nextString d = OutOfFuel"
  then show False
    unfolding nextString_def
    by (simp split: option.splits if_splits scan.splits sum.splits)
qed

lemma nextList_advanced:
  assumes LL: "\<And>res d v d'. listLoop n res d = Ok v d' \<Longrightarrow> advanced d d'"
    and ok: "nextList n d = Ok v d'"
  shows "advanced d d'"
proof -
  from ok obtain c1 where b0: "byte_at (stream d) (pos d) = Some CHR ''l''"
    and b1: "byte_at (stream d) (pos d + 1) = Some c1"
    and r: "(c1 = CHR ''e'' \<and> d' = d\<lparr>pos := pos d + 1 + 1\<rparr>)
            \<or> listLoop n [] (d\<lparr>pos := pos d + 1\<rparr>) = Ok v d'"
    by (auto simp: Let_def split: option.splits if_splits)
  have s1: "advanced d (d\<lparr>pos := pos d + 1\<rparr>)" by (rule advanced_skip [OF b0])
  from r show ?thesis
  proof
    assume "c1 = CHR ''e'' \<and> d' = d\<lparr>pos := pos d + 1 + 1\<rparr>"
    then show ?thesis using advanced_skip2 [OF s1, of c1] b1 by simp
  next
    assume "listLoop n [] (d\<lparr>pos := pos d + 1\<rparr>) = Ok v d'"
    from advanced_trans [OF s1 LL [OF this]] show ?thesis .
  qed
qed

lemma nextDict_advanced:
  assumes DL: "\<And>res d v d'. dictLoop n res d = Ok v d' \<Longrightarrow> advanced d d'"
    and ok: "nextDict n d = Ok v d'"
  shows "advanced d d'"
proof -
  from ok obtain c1 where b0: "byte_at (stream d) (pos d) = Some CHR ''d''"
    and b1: "byte_at (stream d) (pos d + 1) = Some c1"
    and r: "(c1 = CHR ''e'' \<and> d' = d\<lparr>pos := pos d + 1 + 1\<rparr>)
            \<or> dictLoop n fmempty (d\<lparr>pos := pos d + 1\<rparr>) = Ok v d'"
    by (auto simp: Let_def split: option.splits if_splits)
  have s1: "advanced d (d\<lparr>pos := pos d + 1\<rparr>)" by (rule advanced_skip [OF b0])
  from r show ?thesis
  proof
    assume "c1 = CHR ''e'' \<and> d' = d\<lparr>pos := pos d + 1 + 1\<rparr>"
    then show ?thesis using advanced_skip2 [OF s1, of c1] b1 by simp
  next
    assume "dictLoop n fmempty (d\<lparr>pos := pos d + 1\<rparr>) = Ok v d'"
    from advanced_trans [OF s1 DL [OF this]] show ?thesis .
  qed
qed

lemma advanced_all:
  "(\<forall>d v d'. nextObject n d = Ok v d' \<longrightarrow> advanced d d')
   \<and> (\<forall>res d v d'. listLoop n res d = Ok v d' \<longrightarrow> advanced d d')
   \<and> (\<forall>res d v d'. dictLoop n res d = Ok v d' \<longrightarrow> advanced d d')"
proof (induction n)
  case 0
  show ?case by simp
next
  case (Suc n)
  then have A: "\<And>d v d'. nextObject n d = Ok v d' \<Longrightarrow> advanced d d'"
    and LL: "\<And>res d v d'. listLoop n res d = Ok v d' \<Longrightarrow> advanced d d'"
    and DL: "\<And>res d v d'. dictLoop n res d = Ok v d' \<Longrightarrow> advanced d d'"
    by blast+
  have obj: "advanced d d'" if "nextObject (Suc n) d = Ok v d'" for d v d'
  proof -
    from that obtain c where c: "byte_at (stream d) (pos d) = Some c"
      by (auto split: if_splits option.splits)
    from that c consider
        x d0 where "nextInteger d = Ok x d0" "d' = mark_consumed d0"
      | x d0 where "nextList n d = Ok x d0" "d' = mark_consumed d0"
      | x d0 where "nextDict n d = Ok x d0" "d' = mark_consumed d0"
      | x d0 where "nextString d = Ok x d0" "d' = mark_consumed d0"
      by (simp del: nextList.simps nextDict.simps split: if_splits) (blast dest: boxed_Ok)+
    then show ?thesis
    proof cases
      case 1 then show ?thesis by (simp add: nextInteger_advanced)
    next
      case 2 then show ?thesis using nextList_advanced [OF LL] by simp
    next
      case 3 then show ?thesis using nextDict_advanced [OF DL] by simp
    next
      case 4 then show ?thesis by (simp add: nextString_advanced)
    qed
  qed
  have lst: "advanced d d'" if "listLoop (Suc n) res d = Ok v d'" for res d v d'
  proof -
    from that obtain obj d1 where o: "nextObject n d = Ok obj d1"
      and r: "d' = d1\<lparr>pos := pos d1 + 1\<rparr> \<and> (\<exists>c. byte_at (stream d1) (pos d1) = Some c)
              \<or> listLoop n (res @ [obj]) d1 = Ok v d'"
      by (auto split: outcome.splits if_splits option.splits)
    from r show ?thesis
    proof
      assume "d' = d1\<lparr>pos := pos d1 + 1\<rparr> \<and> (\<exists>c. byte_at (stream d1) (pos d1) = Some c)"
      then show ?thesis using advanced_skip2 [OF A [OF o]] by auto
    next
      assume "listLoop n (res @ [obj]) d1 = Ok v d'"
      from advanced_trans [OF A [OF o] LL [OF this]] show ?thesis .
    qed
  qed
  have dct: "advanced d d'" if "dictLoop (Suc n) res d = Ok v d'" for res d v d'
  proof -
    from that obtain key d1 val d2 where k: "nextString d = Ok key d1"
      and o: "nextObject n d1 = Ok val d2"
      and r: "d' = d2\<lparr>pos := pos d2 + 1\<rparr> \<and> (\<exists>c. byte_at (stream d2) (pos d2) = Some c)
              \<or> dictLoop n (fmupd key val res) d2 = Ok v d'"
      by (auto split: outcome.splits if_splits option.splits)
    have a2: "advanced d d2" by (rule advanced_trans [OF nextString_advanced [OF k] A [OF o]])
    from r show ?thesis
    proof
      assume "d' = d2\<lparr>pos := pos d2 + 1\<rparr> \<and> (\<exists>c. byte_at (stream d2) (pos d2) = Some c)"
      then show ?thesis using advanced_skip2 [OF a2] by auto
    next
      assume "dictLoop n (fmupd key val res) d2 = Ok v d'"
      from advanced_trans [OF a2 DL [OF this]] show ?thesis .
    qed
  qed
  from obj lst dct show ?case by blast
qed

lemma advanced_less:
  "advanced d d' \<Longrightarrow> length (stream d') - pos d' < length (stream d) - pos d"
  by (auto simp: advanced_def)

lemma fuel_all:
  "(\<forall>d. 2 * (length (stream d) - pos d) + 1 \<le> n \<longrightarrow> nextObject n d \<noteq> OutOfFuel)
   \<and> (\<forall>res d. 2 * (length (stream d) - pos d) + 2 \<le> n \<longrightarrow> listLoop n res d \<noteq> OutOfFuel)
   \<and> (\<forall>res d. 2 * (length (stream d) - pos d) + 2 \<le> n \<longrightarrow> dictLoop n res d \<noteq> OutOfFuel)"
proof (induction n)
  case 0
  show ?case by simp
next
  case (Suc n)
  then have A: "\<And>d. 2 * (length (stream d) - pos d) + 1 \<le> n \<Longrightarrow> nextObject n d \<noteq> OutOfFuel"
    and LL: "\<And>res d. 2 * (length (stream d) - pos d) + 2 \<le> n \<Longrightarrow> listLoop n res d \<noteq> OutOfFuel"
    and DL: "\<And>res d. 2 * (length (stream d) - pos d) + 2 \<le> n \<Longrightarrow> dictLoop n res d \<noteq> OutOfFuel"
    by blast+
  have obj: "nextObject (Suc n) d \<noteq> OutOfFuel"
    if fb: "2 * (length (stream d) - pos d) + 1 \<le> Suc n" for d
  proof
    assume out: "nextObject (Suc n) d = OutOfFuel"
    then obtain c where c: "byte_at (stream d) (pos d) = Some c"
      by (auto split: if_splits option.splits)
    let ?d1 = "d\<lparr>pos := pos d + 1\<rparr>"
    from byte_at_Some [OF c] fb
    have f1: "2 * (length (stream ?d1) - pos ?d1) + 2 \<le> n" by simp
    from out c have "listLoop n [] ?d1 = OutOfFuel \<or> dictLoop n fmempty ?d1 = OutOfFuel"
      by (auto simp: Let_def split: if_splits option.splits)
    with LL [OF f1] DL [OF f1] show False by blast
  qed
  have lst: "listLoop (Suc n) res d \<noteq> OutOfFuel"
    if fb: "2 * (length (stream d) - pos d) + 2 \<le> Suc n" for res d
  proof
    assume out: "listLoop (Suc n) res d = OutOfFuel"
    from fb have f0: "2 * (length (stream d) - pos d) + 1 \<le> n" by simp
    from out A [OF f0] obtain obj d1 where o: "nextObject n d = Ok obj d1"
      and l: "listLoop n (res @ [obj]) d1 = OutOfFuel"
      by (auto split: outcome.splits if_splits option.splits)
    from advanced_less [OF advanced_all [THEN conjunct1, rule_format, OF o]] f0
    have "2 * (length (stream d1) - pos d1) + 2 \<le> n" by simp
    from LL [OF this] l show False by blast
  qed
  have dct: "dictLoop (Suc n) res d \<noteq> OutOfFuel"
    if fb: "2 * (length (stream d) - pos d) + 2 \<le> Suc n" for res d
  proof
    assume out: "dictLoop (Suc n) res d = OutOfFuel"
    from out obtain key d1 where k: "nextString d = Ok key d1"
      by (auto split: outcome.splits)
    from advanced_less [OF nextString_advanced [OF k]] fb
    have f1: "2 * (length (stream d1) - pos d1) + 1 \<le> n" by simp
    from out k A [OF f1] obtain val d2 where o: "nextObject n d1 = Ok val d2"
      and l: "dictLoop n (fmupd key val res) d2 = OutOfFuel"
      by (auto split: outcome.splits if_splits option.splits)
    from advanced_less [OF advanced_all [THEN conjunct1, rule_format, OF o]] f1
    have "2 * (length (stream d2) - pos d2) + 2 \<le> n" by simp
    from DL [OF this] l show False by blast
  qed
  from obj lst dct show ?case by blast
qed

text \<open>
  Every call of \<open>Decode\<close> comes to an end: it returns or it panics. The bound on the
  recursion in the definition of \<open>Decode\<close> is never reached.
\<close>

theorem Decode_returns_or_panics: "Decode d \<noteq> OutOfFuel"
proof -
  have "2 * (length (stream d) - pos d) + 1 \<le> 2 * length (stream d) + 1" by simp
  then show ?thesis
    unfolding Decode_def using fuel_all [of "2 * length (stream d) + 1"] by blast
qed


subsection \<open>Decimal text\<close>

lemma no_empty_BList: "no_empty (BList xs) \<longleftrightarrow> xs \<noteq> [] \<and> (\<forall>x\<in>set xs. no_empty x)"
  by (simp add: list_all_iff)

lemma no_empty_Dictionary:
  "no_empty (Dictionary m) \<longleftrightarrow>
     m \<noteq> fmempty \<and> (\<forall>k x. fmlookup m k = Some x \<longrightarrow> k \<noteq> [] \<and> int (length k) < 2 ^ 63 \<and> no_empty x)"
  by (auto simp: fmpred_iff)

lemma is_digit_int: "is_digit c \<longleftrightarrow> 48 \<le> (of_char c :: int) \<and> (of_char c :: int) \<le> 57"
proof -
  have "(of_char c :: int) = int (of_char c)" by (simp add: of_nat_of_char)
  then show ?thesis by (simp add: is_digit_code)
qed

lemma of_char_digit_char: "0 \<le> k \<Longrightarrow> k \<le> 9 \<Longrightarrow> (of_char (digit_char k) :: int) = 48 + k"
  by (simp add: digit_char_def)

lemma is_digit_digit_char: "0 \<le> k \<Longrightarrow> k \<le> 9 \<Longrightarrow> is_digit (digit_char k)"
  by (simp add: is_digit_int of_char_digit_char)

lemma digit_val_digit_char: "0 \<le> k \<Longrightarrow> k \<le> 9 \<Longrightarrow> digit_val (digit_char k) = k"
  by (simp add: digit_val_def of_char_digit_char)

lemma digit_char_0: "digit_char 0 = CHR ''0''"
  unfolding digit_char_def by code_simp

lemma digit_char_zero_iff: "0 \<le> k \<Longrightarrow> k \<le> 9 \<Longrightarrow> digit_char k = CHR ''0'' \<longleftrightarrow> k = 0"
proof
  assume r: "0 \<le> k" "k \<le> 9" and "digit_char k = CHR ''0''"
  then have "(of_char (digit_char k) :: int) = of_char CHR ''0''" by simp
  with r show "k = 0" by (simp add: of_char_digit_char)
qed (simp add: digit_char_0)

lemma decimal_digits: "0 \<le> n \<Longrightarrow> list_all is_digit (decimal n) \<and> decimal n \<noteq> []"
proof (induction n rule: decimal.induct)
  case (1 n)
  show ?case
  proof (cases "n < 10")
    case True
    with "1.prems" show ?thesis by (subst decimal.simps, subst decimal.simps) (simp add: is_digit_digit_char)
  next
    case False
    then have "0 \<le> n div 10" by simp
    with "1.IH" False have "list_all is_digit (decimal (n div 10))" by simp
    moreover have "is_digit (digit_char (n mod 10))" by (simp add: is_digit_digit_char)
    ultimately show ?thesis using False by (subst decimal.simps, subst decimal.simps) simp
  qed
qed

lemma dec_snoc: "dec (ds @ [c]) = 10 * dec ds + digit_val c"
  by (simp add: dec_def)

lemma dec_decimal: "0 \<le> n \<Longrightarrow> dec (decimal n) = n"
proof (induction n rule: decimal.induct)
  case (1 n)
  show ?case
  proof (cases "n < 10")
    case True
    with "1.prems" show ?thesis
      by (subst decimal.simps) (simp add: dec_def digit_val_digit_char)
  next
    case False
    then have "0 \<le> n div 10" by simp
    with "1.IH" False have "dec (decimal (n div 10)) = n div 10" by simp
    then show ?thesis using False
      by (subst decimal.simps) (simp add: dec_snoc digit_val_digit_char)
  qed
qed

lemma decimal_no_leading_zero: "0 < n \<Longrightarrow> hd (decimal n) \<noteq> CHR ''0''"
proof (induction n rule: decimal.induct)
  case (1 n)
  show ?case
  proof (cases "n < 10")
    case True
    with "1.prems" show ?thesis
      by (subst decimal.simps) (simp add: digit_char_zero_iff)
  next
    case False
    then have "0 < n div 10" by simp
    with "1.IH" False have "hd (decimal (n div 10)) \<noteq> CHR ''0''" by simp
    moreover have "decimal (n div 10) \<noteq> []" using decimal_digits [of "n div 10"] False by simp
    ultimately show ?thesis using False by (subst decimal.simps) simp
  qed
qed

lemma decimal_zero: "decimal 0 = ''0''"
  by (subst decimal.simps) (simp add: digit_char_0)

lemma decimal_leading: "0 \<le> n \<Longrightarrow> \<not> (hd (decimal n) = CHR ''0'' \<and> 1 < length (decimal n))"
  using decimal_no_leading_zero [of n] decimal_zero by (cases "n = 0") auto


subsection \<open>Decoding what the encoder wrote\<close>

lemma roundtrip_integer:
  assumes s: "stream d = pre @ encodeInteger i @ suf" and p: "pos d = length pre"
  shows "nextInteger d = Ok i (d\<lparr>pos := length pre + length (encodeInteger i)\<rparr>)"
proof (cases "sint i < 0")
  case True
  define ds where "ds = decimal (- sint i)"
  have nn: "0 \<le> - sint i" using True by simp
  have dig: "list_all is_digit ds" and ne: "ds \<noteq> []"
    using decimal_digits [OF nn] by (simp_all add: ds_def)
  have val: "dec ds = - sint i" unfolding ds_def by (rule dec_decimal [OF nn])
  have enc: "encodeInteger i = CHR ''i'' # ''-'' @ ds @ ''e''"
    using True by (simp add: encodeInteger_def Sprintd_def ds_def)
  have st: "stream d = pre @ CHR ''i'' # ''-'' @ ds @ CHR ''e'' # suf"
    unfolding s enc by simp
  have lead: "\<not> (hd ds = CHR ''0'' \<and> 1 < length ds)"
    unfolding ds_def by (rule decimal_leading [OF nn])
  have "- (2 ^ 63) \<le> sint i" using sint_ge [of i] by simp
  then have "\<not> 2 ^ 63 < dec ds" unfolding val by simp
  then have pi: "ParseInt (''-'' @ ds) = (i, None)"
    using ParseInt_minus_digits [OF ne dig] val by simp
  show ?thesis
    using nextInteger_at [OF st p _ ne dig] lead pi by (simp add: enc)
next
  case False
  define ds where "ds = decimal (sint i)"
  have nn: "0 \<le> sint i" using False by simp
  have dig: "list_all is_digit ds" and ne: "ds \<noteq> []"
    using decimal_digits [OF nn] by (simp_all add: ds_def)
  have val: "dec ds = sint i" unfolding ds_def by (rule dec_decimal [OF nn])
  have enc: "encodeInteger i = CHR ''i'' # [] @ ds @ ''e''"
    using False by (simp add: encodeInteger_def Sprintd_def ds_def)
  have st: "stream d = pre @ CHR ''i'' # [] @ ds @ CHR ''e'' # suf"
    unfolding s enc by simp
  have lead: "\<not> (hd ds = CHR ''0'' \<and> 1 < length ds)"
    unfolding ds_def by (rule decimal_leading [OF nn])
  have "sint i < 2 ^ 63" using sint_lt [of i] by simp
  then have "\<not> 2 ^ 63 \<le> dec ds" unfolding val by simp
  then have pi: "ParseInt ([] @ ds) = (i, None)"
    using ParseInt_digits [OF ne dig] val by simp
  show ?thesis
    using nextInteger_at [OF st p _ ne dig] lead pi by (simp add: enc)
qed

lemma roundtrip_string:
  assumes ne: "s \<noteq> []" and small: "int (length s) < 2 ^ 63"
    and st: "stream d = pre @ encodeString s @ suf" and p: "pos d = length pre"
  shows "nextString d = Ok s (d\<lparr>pos := length pre + length (encodeString s)\<rparr>)"
proof -
  define ds where "ds = decimal (int (length s))"
  have nn: "0 \<le> int (length s)" by simp
  have dig: "list_all is_digit ds" and dne: "ds \<noteq> []"
    using decimal_digits [OF nn] by (simp_all add: ds_def)
  have val: "dec ds = int (length s)" unfolding ds_def by (rule dec_decimal [OF nn])
  have enc: "encodeString s = ds @ CHR '':'' # s"
    using ne by (simp add: encodeString_def ds_def)
  have st': "stream d = pre @ ds @ CHR '':'' # (s @ suf)"
    unfolding st enc by simp
  show ?thesis
    using nextString_at [OF st' p dne dig] small by (simp add: val enc)
qed

lemma first_byte:
  assumes "no_empty v"
  shows "\<exists>c cs. encodeObject v = c # cs \<and> c \<noteq> CHR ''e''
           \<and> (case v of Integer i \<Rightarrow> c = CHR ''i'' | ByteString s \<Rightarrow> is_digit c
               | BList xs \<Rightarrow> c = CHR ''l'' | Dictionary m \<Rightarrow> c = CHR ''d'')"
proof (cases v)
  case (Integer i)
  then show ?thesis by (simp add: encodeInteger_def)
next
  case (ByteString s)
  obtain c cs where d: "decimal (int (length s)) = c # cs"
    using decimal_digits [of "int (length s)"] by (cases "decimal (int (length s))") auto
  then have "is_digit c" using decimal_digits [of "int (length s)"] by simp
  with d ByteString assms digit_not_special [of c] show ?thesis
    by (simp add: encodeString_def)
next
  case (BList xs)
  with assms show ?thesis by (simp add: list_frame_def)
next
  case (Dictionary m)
  with assms show ?thesis by (simp add: dict_frame_fmmap fmdom_fempty_iff)
qed

lemma key_first_byte:
  assumes "k \<noteq> []"
  shows "\<exists>c cs. encodeString k = c # cs \<and> is_digit c"
proof -
  obtain c cs where d: "decimal (int (length k)) = c # cs"
    using decimal_digits [of "int (length k)"] by (cases "decimal (int (length k))") auto
  then have "is_digit c" using decimal_digits [of "int (length k)"] by simp
  with d assms show ?thesis by (simp add: encodeString_def)
qed


lemma listLoop_last:
  "nextObject m d = Ok x d1 \<Longrightarrow> byte_at (stream d1) (pos d1) = Some CHR ''e'' \<Longrightarrow>
   listLoop (Suc m) acc d = Ok (acc @ [x]) (d1\<lparr>pos := pos d1 + 1\<rparr>)"
  by (auto dest: byte_at_Some)

lemma listLoop_more:
  "nextObject m d = Ok x d1 \<Longrightarrow> byte_at (stream d1) (pos d1) = Some c \<Longrightarrow> c \<noteq> CHR ''e'' \<Longrightarrow>
   listLoop (Suc m) acc d = listLoop m (acc @ [x]) d1"
  by (auto dest: byte_at_Some)

lemma listLoop_end:
  "nextObject m d = Ok x d1 \<Longrightarrow> length (stream d1) \<le> pos d1 \<Longrightarrow>
   listLoop (Suc m) acc d = Fail (acc @ [x]) ErrorNoTerminator d1"
  by simp

lemma dictLoop_last:
  "nextString d = Ok k d1 \<Longrightarrow> nextObject m d1 = Ok x d2 \<Longrightarrow>
   byte_at (stream d2) (pos d2) = Some CHR ''e'' \<Longrightarrow>
   dictLoop (Suc m) acc d = Ok (fmupd k x acc) (d2\<lparr>pos := pos d2 + 1\<rparr>)"
  by (auto dest: byte_at_Some)

lemma dictLoop_more:
  "nextString d = Ok k d1 \<Longrightarrow> nextObject m d1 = Ok x d2 \<Longrightarrow>
   byte_at (stream d2) (pos d2) = Some c \<Longrightarrow> c \<noteq> CHR ''e'' \<Longrightarrow>
   dictLoop (Suc m) acc d = dictLoop m (fmupd k x acc) d2"
  by (auto dest: byte_at_Some)

lemma mark_consumed_inside:
  "pos d < length (stream d) \<Longrightarrow> mark_consumed d = d"
  by (simp add: mark_consumed_def)

lemma listLoop_encoded:
  assumes IH: "\<And>x n d pre suf. x \<in> set xs \<Longrightarrow> stream d = pre @ encodeObject x @ suf \<Longrightarrow>
        pos d = length pre \<Longrightarrow> \<not> Consumed d \<Longrightarrow>
        2 * (length (encodeObject x) + length suf) + 1 \<le> n \<Longrightarrow>
        nextObject n d = Ok x (mark_consumed (d\<lparr>pos := length pre + length (encodeObject x)\<rparr>))"
    and ok: "\<forall>x\<in>set xs. no_empty x"
    and ne: "xs \<noteq> []"
    and st: "stream d = pre @ concat (map encodeObject xs) @ CHR ''e'' # suf"
    and p: "pos d = length pre"
    and nc: "\<not> Consumed d"
    and fuel: "2 * (length (concat (map encodeObject xs)) + 1 + length suf) + 2 \<le> n"
  shows "listLoop n acc d
         = Ok (acc @ xs) (d\<lparr>pos := length pre + length (concat (map encodeObject xs)) + 1\<rparr>)"
  using assms
proof (induction xs arbitrary: n d pre acc)
  case Nil
  then show ?case by simp
next
  case (Cons x xs)
  let ?rest = "concat (map encodeObject xs)"
  let ?d1 = "d\<lparr>pos := length pre + length (encodeObject x)\<rparr>"
  from Cons.prems(7) obtain m where n: "n = Suc m" by (cases n) auto
  have st1: "stream d = pre @ encodeObject x @ (?rest @ CHR ''e'' # suf)"
    using Cons.prems(4) by simp
  have f1: "2 * (length (encodeObject x) + length (?rest @ CHR ''e'' # suf)) + 1 \<le> m"
    using Cons.prems(7) n by simp
  have inside: "pos ?d1 < length (stream ?d1)" using st1 by simp
  have o: "nextObject m d = Ok x ?d1"
    using Cons.prems(1) [OF _ st1 Cons.prems(5) Cons.prems(6) f1] mark_consumed_inside [OF inside]
    by simp
  show ?case
  proof (cases xs)
    case Nil
    have b: "byte_at (stream ?d1) (pos ?d1) = Some CHR ''e''"
      using byte_at_middle [of "pre @ encodeObject x" "CHR ''e''" suf] st1 Nil by simp
    show ?thesis
      unfolding n using listLoop_last [OF o b, of acc] Nil by (simp add: add.assoc)
  next
    case (Cons y ys)
    have oky: "no_empty y" using Cons.prems(2) Cons by simp
    from first_byte [OF oky] obtain c cs where c: "encodeObject y = c # cs" "c \<noteq> CHR ''e''"
      by blast
    have b: "byte_at (stream ?d1) (pos ?d1) = Some c"
      using byte_at_middle [of "pre @ encodeObject x" c "cs @ concat (map encodeObject ys) @ CHR ''e'' # suf"]
        st1 Cons c by simp
    have xpos: "0 < length (encodeObject x)"
      using first_byte [of x] Cons.prems(2) by auto
    have st2: "stream ?d1 = (pre @ encodeObject x) @ ?rest @ CHR ''e'' # suf"
      using st1 by simp
    have p2: "pos ?d1 = length (pre @ encodeObject x)" by simp
    have nc2: "\<not> Consumed ?d1" using Cons.prems(6) by simp
    have len: "length (concat (map encodeObject (x # xs))) = length (encodeObject x) + length ?rest"
      by simp
    have f2: "2 * (length ?rest + 1 + length suf) + 2 \<le> m"
    proof -
      have "\<And>a b c k :: nat. 2 * (a + b + 1 + c) + 2 \<le> Suc k \<Longrightarrow> 0 < a \<Longrightarrow> 2 * (b + 1 + c) + 2 \<le> k"
        by arith
      then show ?thesis using Cons.prems(7) xpos unfolding len n by blast
    qed
    have ih1: "\<And>x n d pre suf. x \<in> set xs \<Longrightarrow> stream d = pre @ encodeObject x @ suf \<Longrightarrow>
        pos d = length pre \<Longrightarrow> \<not> Consumed d \<Longrightarrow>
        2 * (length (encodeObject x) + length suf) + 1 \<le> n \<Longrightarrow>
        nextObject n d = Ok x (mark_consumed (d\<lparr>pos := length pre + length (encodeObject x)\<rparr>))"
      using Cons.prems(1) by simp
    have ok1: "\<forall>x\<in>set xs. no_empty x" using Cons.prems(2) by simp
    have ne1: "xs \<noteq> []" using Cons by simp
    have "listLoop n acc d = listLoop m (acc @ [x]) ?d1"
      unfolding n by (rule listLoop_more [OF o b c(2)])
    also have "\<dots> = Ok ((acc @ [x]) @ xs)
        (?d1\<lparr>pos := length (pre @ encodeObject x) + length ?rest + 1\<rparr>)"
      by (rule Cons.IH [OF ih1 ok1 ne1 st2 p2 nc2 f2])
    finally show ?thesis by (simp add: add.assoc)
  qed
qed


lemma assign_all_Cons: "assign_all acc (kv # kvs) = assign_all (fmupd (fst kv) (snd kv) acc) kvs"
  by (simp add: assign_all_def)

lemma assign_all_Nil: "assign_all acc [] = acc"
  by (simp add: assign_all_def)

lemma encode_entry_pair: "encode_entry (k, x) = encodeString k @ encodeObject x"
  by (simp add: encode_entry_def)

lemma dictLoop_encoded:
  assumes IH: "\<And>k x n d pre suf. (k, x) \<in> set kvs \<Longrightarrow> stream d = pre @ encodeObject x @ suf \<Longrightarrow>
        pos d = length pre \<Longrightarrow> \<not> Consumed d \<Longrightarrow>
        2 * (length (encodeObject x) + length suf) + 1 \<le> n \<Longrightarrow>
        nextObject n d = Ok x (mark_consumed (d\<lparr>pos := length pre + length (encodeObject x)\<rparr>))"
    and ok: "\<forall>(k, x)\<in>set kvs. k \<noteq> [] \<and> int (length k) < 2 ^ 63 \<and> no_empty x"
    and ne: "kvs \<noteq> []"
    and st: "stream d = pre @ concat (map encode_entry kvs) @ CHR ''e'' # suf"
    and p: "pos d = length pre"
    and nc: "\<not> Consumed d"
    and fuel: "2 * (length (concat (map encode_entry kvs)) + 1 + length suf) + 2 \<le> n"
  shows "dictLoop n acc d
         = Ok (assign_all acc kvs) (d\<lparr>pos := length pre + length (concat (map encode_entry kvs)) + 1\<rparr>)"
  using assms
proof (induction kvs arbitrary: n d pre acc)
  case Nil
  then show ?case by simp
next
  case (Cons kv kvs)
  obtain k x where kv: "kv = (k, x)" by (cases kv)
  let ?rest = "concat (map encode_entry kvs)"
  let ?d1 = "d\<lparr>pos := length pre + length (encodeString k)\<rparr>"
  let ?d2 = "d\<lparr>pos := length pre + length (encodeString k) + length (encodeObject x)\<rparr>"
  from Cons.prems(7) obtain m where n: "n = Suc m" by (cases n) auto
  have okk: "k \<noteq> []" "int (length k) < 2 ^ 63" and okx: "no_empty x"
    using Cons.prems(2) kv by simp_all
  have st0: "stream d = pre @ encodeString k @ (encodeObject x @ ?rest @ CHR ''e'' # suf)"
    using Cons.prems(4) kv by (simp add: encode_entry_pair)
  have key: "nextString d = Ok k ?d1"
    by (rule roundtrip_string [OF okk st0 Cons.prems(5)])
  have st1: "stream ?d1 = (pre @ encodeString k) @ encodeObject x @ (?rest @ CHR ''e'' # suf)"
    using st0 by simp
  have p1: "pos ?d1 = length (pre @ encodeString k)" by simp
  have nc1: "\<not> Consumed ?d1" using Cons.prems(6) by simp
  have len: "length (concat (map encode_entry (kv # kvs)))
             = length (encodeString k) + length (encodeObject x) + length ?rest"
    by (simp add: kv encode_entry_pair)
  have f1: "2 * (length (encodeObject x) + length (?rest @ CHR ''e'' # suf)) + 1 \<le> m"
    using Cons.prems(7) unfolding len n by simp
  have inside: "pos ?d2 < length (stream ?d2)" using st0 by simp
  have "nextObject m ?d1
        = Ok x (mark_consumed (?d1\<lparr>pos := length (pre @ encodeString k) + length (encodeObject x)\<rparr>))"
    by (rule Cons.prems(1) [of k x, OF _ st1 p1 nc1 f1]) (simp add: kv)
  then have o: "nextObject m ?d1 = Ok x ?d2"
    using mark_consumed_inside [OF inside] by simp
  show ?case
  proof (cases kvs)
    case Nil
    have b: "byte_at (stream ?d2) (pos ?d2) = Some CHR ''e''"
      using byte_at_middle [of "pre @ encodeString k @ encodeObject x" "CHR ''e''" suf] st0 Nil
      by (simp add: add.assoc)
    show ?thesis
      unfolding n using dictLoop_last [OF key o b, of acc] Nil kv
      by (simp add: add.assoc assign_all_Cons assign_all_Nil encode_entry_pair)
  next
    case (Cons kv' kvs')
    have "kv' \<in> set kvs" using Cons by simp
    then have "fst kv' \<noteq> []" using Cons.prems(2) by auto
    from key_first_byte [OF this] obtain c cs where c: "encodeString (fst kv') = c # cs" "is_digit c"
      by blast
    have ce: "c \<noteq> CHR ''e''" using digit_not_special [OF c(2)] by simp
    have b: "byte_at (stream ?d2) (pos ?d2) = Some c"
      using byte_at_middle [of "pre @ encodeString k @ encodeObject x" c
          "cs @ encodeObject (snd kv') @ concat (map encode_entry kvs') @ CHR ''e'' # suf"]
        st0 Cons c by (simp add: encode_entry_def add.assoc)
    have kpos: "0 < length (encodeString k)"
      using key_first_byte [OF okk(1)] by auto
    have xpos: "0 < length (encodeObject x)"
      using first_byte [OF okx] by auto
    have st2: "stream ?d2 = (pre @ encodeString k @ encodeObject x) @ ?rest @ CHR ''e'' # suf"
      using st0 by simp
    have p2: "pos ?d2 = length (pre @ encodeString k @ encodeObject x)" by simp
    have nc2: "\<not> Consumed ?d2" using Cons.prems(6) by simp
    have f2: "2 * (length ?rest + 1 + length suf) + 2 \<le> m"
    proof -
      have "\<And>a a' b c j :: nat. 2 * (a' + a + b + 1 + c) + 2 \<le> Suc j \<Longrightarrow> 0 < a \<Longrightarrow> 2 * (b + 1 + c) + 2 \<le> j"
        by arith
      then show ?thesis using Cons.prems(7) xpos unfolding len n by blast
    qed
    have ih1: "\<And>k x n d pre suf. (k, x) \<in> set kvs \<Longrightarrow> stream d = pre @ encodeObject x @ suf \<Longrightarrow>
        pos d = length pre \<Longrightarrow> \<not> Consumed d \<Longrightarrow>
        2 * (length (encodeObject x) + length suf) + 1 \<le> n \<Longrightarrow>
        nextObject n d = Ok x (mark_consumed (d\<lparr>pos := length pre + length (encodeObject x)\<rparr>))"
    proof -
      fix k x n and d :: Decoder and pre suf
      assume a: "(k, x) \<in> set kvs" "stream d = pre @ encodeObject x @ suf" "pos d = length pre"
        "\<not> Consumed d" "2 * (length (encodeObject x) + length suf) + 1 \<le> n"
      from a(1) have "(k, x) \<in> set (kv # kvs)" by simp
      from Cons.prems(1) [OF this a(2-5)]
      show "nextObject n d = Ok x (mark_consumed (d\<lparr>pos := length pre + length (encodeObject x)\<rparr>))" .
    qed
    have ok1: "\<forall>(k, x)\<in>set kvs. k \<noteq> [] \<and> int (length k) < 2 ^ 63 \<and> no_empty x"
      using Cons.prems(2) by simp
    have ne1: "kvs \<noteq> []" using Cons by simp
    have "dictLoop n acc d = dictLoop m (fmupd k x acc) ?d2"
      unfolding n by (rule dictLoop_more [OF key o b ce])
    also have "\<dots> = Ok (assign_all (fmupd k x acc) kvs)
        (?d2\<lparr>pos := length (pre @ encodeString k @ encodeObject x) + length ?rest + 1\<rparr>)"
      by (rule Cons.IH [OF ih1 ok1 ne1 st2 p2 nc2 f2])
    finally show ?thesis by (simp add: add.assoc kv assign_all_Cons encode_entry_pair)
  qed
qed

lemma assign_all_lookup:
  "fmlookup (assign_all acc kvs) k
     = (case map_of (rev kvs) k of Some x \<Rightarrow> Some x | None \<Rightarrow> fmlookup acc k)"
proof (induction kvs arbitrary: acc)
  case Nil
  show ?case by (simp add: assign_all_Nil)
next
  case (Cons kv kvs)
  obtain a b where kv: "kv = (a, b)" by (cases kv)
  have l: "fmlookup (assign_all acc (kv # kvs)) k
           = (case map_of (rev kvs) k of Some x \<Rightarrow> Some x | None \<Rightarrow> fmlookup (fmupd a b acc) k)"
    by (simp only: assign_all_Cons kv fst_conv snd_conv Cons.IH)
  have r: "map_of (rev (kv # kvs)) k
           = (case map_of (rev kvs) k of Some x \<Rightarrow> Some x | None \<Rightarrow> if k = a then Some b else None)"
    by (simp add: kv map_add_def split: option.split)
  show ?case unfolding l r by (simp split: option.split)
qed

lemma assign_all_keys:
  "assign_all fmempty (map (\<lambda>k. (k, the (fmlookup m k))) (sorted_list_of_fset (fmdom m))) = m"
proof (rule fmap_ext)
  fix x
  let ?ks = "sorted_list_of_fset (fmdom m)"
  let ?f = "\<lambda>k. (k, the (fmlookup m k))"
  have "rev (map ?f ?ks) = map ?f (rev ?ks)" by (simp add: rev_map)
  then have "map_of (rev (map ?f ?ks)) = (Some \<circ> (\<lambda>k. the (fmlookup m k))) |` set (rev ?ks)"
    by (simp only: map_of_map_restrict)
  then have mo: "map_of (rev (map ?f ?ks)) x
             = (if x |\<in>| fmdom m then Some (the (fmlookup m x)) else None)"
    by (simp add: restrict_map_def)
  show "fmlookup (assign_all fmempty (map ?f ?ks)) x = fmlookup m x"
  proof (cases "x |\<in>| fmdom m")
    case True
    then obtain y where "fmlookup m x = Some y" by (auto simp: fmlookup_dom_iff)
    with True show ?thesis unfolding assign_all_lookup mo by simp
  next
    case False
    then have "fmlookup m x = None" by (rule fmdom_notD)
    with False show ?thesis unfolding assign_all_lookup mo by simp
  qed
qed

lemma nextDict_enter:
  "byte_at (stream d) (pos d) = Some CHR ''d'' \<Longrightarrow> byte_at (stream d) (pos d + 1) = Some c \<Longrightarrow>
   c \<noteq> CHR ''e'' \<Longrightarrow> nextDict n d = dictLoop n fmempty (d\<lparr>pos := pos d + 1\<rparr>)"
  by (simp add: Let_def)

lemma nextList_enter:
  "byte_at (stream d) (pos d) = Some CHR ''l'' \<Longrightarrow> byte_at (stream d) (pos d + 1) = Some c \<Longrightarrow>
   c \<noteq> CHR ''e'' \<Longrightarrow> nextList n d = listLoop n [] (d\<lparr>pos := pos d + 1\<rparr>)"
  by (simp add: Let_def)

lemma boxed_Ok_eq: "boxed f (Ok x d) = Ok (f x) (mark_consumed d)"
  by (simp add: boxed_def)

lemma decode_entries:
  assumes IH: "\<And>k x n d pre suf. (k, x) \<in> set kvs \<Longrightarrow> stream d = pre @ encodeObject x @ suf \<Longrightarrow>
        pos d = length pre \<Longrightarrow> \<not> Consumed d \<Longrightarrow>
        2 * (length (encodeObject x) + length suf) + 1 \<le> n \<Longrightarrow>
        nextObject n d = Ok x (mark_consumed (d\<lparr>pos := length pre + length (encodeObject x)\<rparr>))"
    and ok: "\<forall>(k, x)\<in>set kvs. k \<noteq> [] \<and> int (length k) < 2 ^ 63 \<and> no_empty x"
    and ne: "kvs \<noteq> []"
    and st: "stream d = pre @ CHR ''d'' # concat (map encode_entry kvs) @ CHR ''e'' # suf"
    and p: "pos d = length pre"
    and nc: "\<not> Consumed d"
    and fuel: "2 * (length (concat (map encode_entry kvs)) + 2 + length suf) + 1 \<le> n"
  shows "nextObject n d
         = Ok (Dictionary (assign_all fmempty kvs))
             (mark_consumed (d\<lparr>pos := length pre + length (concat (map encode_entry kvs)) + 2\<rparr>))"
proof -
  from fuel obtain m where n: "n = Suc m" by (cases n) auto
  obtain kv kvs' where kvs: "kvs = kv # kvs'" using ne by (cases kvs) auto
  have "fst kv \<noteq> []" using ok kvs by auto
  from key_first_byte [OF this] obtain c cs where c: "encodeString (fst kv) = c # cs" "is_digit c"
    by blast
  have ce: "c \<noteq> CHR ''e''" using digit_not_special [OF c(2)] by simp
  have b0: "byte_at (stream d) (pos d) = Some CHR ''d''"
    unfolding st p by (rule byte_at_middle)
  have b1: "byte_at (stream d) (pos d + 1) = Some c"
    using byte_at_middle [of "pre @ ''d''" c
        "cs @ encodeObject (snd kv) @ concat (map encode_entry kvs') @ CHR ''e'' # suf"]
    unfolding st p kvs by (simp add: encode_entry_def c)
  let ?d1 = "d\<lparr>pos := pos d + 1\<rparr>"
  have st1: "stream ?d1 = (pre @ ''d'') @ concat (map encode_entry kvs) @ CHR ''e'' # suf"
    using st by simp
  have p1: "pos ?d1 = length (pre @ ''d'')" using p by simp
  have nc1: "\<not> Consumed ?d1" using nc by simp
  have f1: "2 * (length (concat (map encode_entry kvs)) + 1 + length suf) + 2 \<le> m"
    using fuel unfolding n by simp
  have "nextObject n d = boxed Dictionary (nextDict m d)"
    unfolding n by (rule nextObject_dict [OF nc b0])
  also have "nextDict m d = dictLoop m fmempty ?d1"
    by (rule nextDict_enter [OF b0 b1 ce])
  also have "\<dots> = Ok (assign_all fmempty kvs)
      (?d1\<lparr>pos := length (pre @ ''d'') + length (concat (map encode_entry kvs)) + 1\<rparr>)"
    by (rule dictLoop_encoded [OF IH ok ne st1 p1 nc1 f1])
  finally show ?thesis
    by (simp add: boxed_Ok_eq add.assoc)
qed

lemma decode_elements:
  assumes IH: "\<And>x n d pre suf. x \<in> set xs \<Longrightarrow> stream d = pre @ encodeObject x @ suf \<Longrightarrow>
        pos d = length pre \<Longrightarrow> \<not> Consumed d \<Longrightarrow>
        2 * (length (encodeObject x) + length suf) + 1 \<le> n \<Longrightarrow>
        nextObject n d = Ok x (mark_consumed (d\<lparr>pos := length pre + length (encodeObject x)\<rparr>))"
    and ok: "\<forall>x\<in>set xs. no_empty x"
    and ne: "xs \<noteq> []"
    and st: "stream d = pre @ CHR ''l'' # concat (map encodeObject xs) @ CHR ''e'' # suf"
    and p: "pos d = length pre"
    and nc: "\<not> Consumed d"
    and fuel: "2 * (length (concat (map encodeObject xs)) + 2 + length suf) + 1 \<le> n"
  shows "nextObject n d
         = Ok (BList xs)
             (mark_consumed (d\<lparr>pos := length pre + length (concat (map encodeObject xs)) + 2\<rparr>))"
proof -
  from fuel obtain m where n: "n = Suc m" by (cases n) auto
  obtain y ys where xs: "xs = y # ys" using ne by (cases xs) auto
  have "no_empty y" using ok xs by simp
  from first_byte [OF this] obtain c cs where c: "encodeObject y = c # cs" "c \<noteq> CHR ''e''"
    by blast
  have b0: "byte_at (stream d) (pos d) = Some CHR ''l''"
    unfolding st p by (rule byte_at_middle)
  have b1: "byte_at (stream d) (pos d + 1) = Some c"
    using byte_at_middle [of "pre @ ''l''" c "cs @ concat (map encodeObject ys) @ CHR ''e'' # suf"]
    unfolding st p xs by (simp add: c)
  let ?d1 = "d\<lparr>pos := pos d + 1\<rparr>"
  have st1: "stream ?d1 = (pre @ ''l'') @ concat (map encodeObject xs) @ CHR ''e'' # suf"
    using st by simp
  have p1: "pos ?d1 = length (pre @ ''l'')" using p by simp
  have nc1: "\<not> Consumed ?d1" using nc by simp
  have f1: "2 * (length (concat (map encodeObject xs)) + 1 + length suf) + 2 \<le> m"
    using fuel unfolding n by simp
  have "nextObject n d = boxed BList (nextList m d)"
    unfolding n by (rule nextObject_list [OF nc b0])
  also have "nextList m d = listLoop m [] ?d1"
    by (rule nextList_enter [OF b0 b1 c(2)])
  also have "\<dots> = Ok ([] @ xs)
      (?d1\<lparr>pos := length (pre @ ''l'') + length (concat (map encodeObject xs)) + 1\<rparr>)"
    by (rule listLoop_encoded [OF IH ok ne st1 p1 nc1 f1])
  finally show ?thesis
    by (simp add: boxed_Ok_eq add.assoc)
qed

lemma encodeObject_BList:
  "xs \<noteq> [] \<Longrightarrow> encodeObject (BList xs) = CHR ''l'' # concat (map encodeObject xs) @ ''e''"
  by (simp add: list_frame_def)

lemma encodeObject_Dictionary:
  "m \<noteq> fmempty \<Longrightarrow>
   encodeObject (Dictionary m)
     = CHR ''d'' # concat (map encode_entry (map (\<lambda>k. (k, the (fmlookup m k))) (sorted_list_of_fset (fmdom m)))) @ ''e''"
  by (simp add: dict_frame_fmmap fmdom_fempty_iff comp_def encode_entry_def)

lemma decode_encoded:
  "no_empty v \<Longrightarrow> stream d = pre @ encodeObject v @ suf \<Longrightarrow> pos d = length pre \<Longrightarrow>
   \<not> Consumed d \<Longrightarrow> 2 * (length (encodeObject v) + length suf) + 1 \<le> n \<Longrightarrow>
   nextObject n d = Ok v (mark_consumed (d\<lparr>pos := length pre + length (encodeObject v)\<rparr>))"
proof (induction v arbitrary: n d pre suf)
  case (Integer i)
  from Integer.prems(5) obtain m where n: "n = Suc m" by (cases n) auto
  have b: "byte_at (stream d) (pos d) = Some CHR ''i''"
    using byte_at_middle [of pre "CHR ''i''" "Sprintd i @ ''e'' @ suf"] Integer.prems(2,3)
    by (simp add: encodeInteger_def)
  have "nextObject n d = boxed Integer (nextInteger d)"
    unfolding n by (rule nextObject_int [OF Integer.prems(4) b])
  also have "nextInteger d = Ok i (d\<lparr>pos := length pre + length (encodeInteger i)\<rparr>)"
    using Integer.prems(2,3) by (intro roundtrip_integer) simp_all
  finally show ?case by (simp add: boxed_Ok_eq)
next
  case (ByteString s)
  from ByteString.prems(5) obtain m where n: "n = Suc m" by (cases n) auto
  from ByteString.prems(1) have ne: "s \<noteq> []" and small: "int (length s) < 2 ^ 63" by simp_all
  from key_first_byte [OF ne] obtain c cs where c: "encodeString s = c # cs" "is_digit c" by blast
  have b: "byte_at (stream d) (pos d) = Some c"
    using byte_at_middle [of pre c "cs @ suf"] ByteString.prems(2,3) c by simp
  have st: "stream d = pre @ encodeString s @ suf" using ByteString.prems(2) by simp
  have "nextObject n d = boxed ByteString (nextString d)"
    unfolding n by (rule nextObject_str [OF ByteString.prems(4) b c(2)])
  also have "nextString d = Ok s (d\<lparr>pos := length pre + length (encodeString s)\<rparr>)"
    by (rule roundtrip_string [OF ne small st ByteString.prems(3)])
  finally show ?case by (simp add: boxed_Ok_eq)
next
  case (BList xs)
  from BList.prems(1) have ne: "xs \<noteq> []" and ok: "\<forall>x\<in>set xs. no_empty x"
    unfolding no_empty_BList by simp_all
  have enc: "encodeObject (BList xs) = CHR ''l'' # concat (map encodeObject xs) @ ''e''"
    by (rule encodeObject_BList [OF ne])
  have st: "stream d = pre @ CHR ''l'' # concat (map encodeObject xs) @ CHR ''e'' # suf"
    using BList.prems(2) unfolding enc by simp
  have fuel: "2 * (length (concat (map encodeObject xs)) + 2 + length suf) + 1 \<le> n"
    using BList.prems(5) unfolding enc by simp
  have ih: "nextObject n d = Ok x (mark_consumed (d\<lparr>pos := length pre + length (encodeObject x)\<rparr>))"
    if "x \<in> set xs" "stream d = pre @ encodeObject x @ suf" "pos d = length pre" "\<not> Consumed d"
      "2 * (length (encodeObject x) + length suf) + 1 \<le> n" for x n and d :: Decoder and pre suf
    using BList.IH [OF that(1) _ that(2-5)] ok that(1) by blast
  have "nextObject n d = Ok (BList xs)
      (mark_consumed (d\<lparr>pos := length pre + length (concat (map encodeObject xs)) + 2\<rparr>))"
    by (rule decode_elements [OF ih ok ne st BList.prems(3,4) fuel])
  then show ?case unfolding enc by simp
next
  case (Dictionary m)
  let ?kvs = "map (\<lambda>k. (k, the (fmlookup m k))) (sorted_list_of_fset (fmdom m))"
  from Dictionary.prems(1) have ne: "m \<noteq> fmempty"
    and okm: "\<And>k x. fmlookup m k = Some x \<Longrightarrow> k \<noteq> [] \<and> int (length k) < 2 ^ 63 \<and> no_empty x"
    unfolding no_empty_Dictionary by simp_all
  have mem: "fmlookup m k = Some x" if "(k, x) \<in> set ?kvs" for k x
    using that by (auto simp: fmlookup_dom_iff)
  have enc: "encodeObject (Dictionary m) = CHR ''d'' # concat (map encode_entry ?kvs) @ ''e''"
    by (rule encodeObject_Dictionary [OF ne])
  have kne: "?kvs \<noteq> []"
  proof
    assume "?kvs = []"
    then have "sorted_list_of_fset (fmdom m) = []" by simp
    with sorted_list_of_fset_simps(2) [of "fmdom m"] have "fmdom m = {||}" by simp
    with ne show False by (simp add: fmdom_fempty_iff)
  qed
  have ok: "\<forall>(k, x)\<in>set ?kvs. k \<noteq> [] \<and> int (length k) < 2 ^ 63 \<and> no_empty x"
    using okm mem by blast
  have st: "stream d = pre @ CHR ''d'' # concat (map encode_entry ?kvs) @ CHR ''e'' # suf"
    using Dictionary.prems(2) unfolding enc by simp
  have fuel: "2 * (length (concat (map encode_entry ?kvs)) + 2 + length suf) + 1 \<le> n"
    using Dictionary.prems(5) unfolding enc by simp
  have ih: "nextObject n d = Ok x (mark_consumed (d\<lparr>pos := length pre + length (encodeObject x)\<rparr>))"
    if "(k, x) \<in> set ?kvs" "stream d = pre @ encodeObject x @ suf" "pos d = length pre" "\<not> Consumed d"
      "2 * (length (encodeObject x) + length suf) + 1 \<le> n" for k x n and d :: Decoder and pre suf
  proof -
    have l: "fmlookup m k = Some x" by (rule mem [OF that(1)])
    then have "x \<in> fmran' m" by (rule fmran'I)
    from Dictionary.IH [OF this _ that(2-5)] okm [OF l] show ?thesis by blast
  qed
  have "nextObject n d = Ok (Dictionary (assign_all fmempty ?kvs))
      (mark_consumed (d\<lparr>pos := length pre + length (concat (map encode_entry ?kvs)) + 2\<rparr>))"
    by (rule decode_entries [OF ih ok kne st Dictionary.prems(3,4) fuel])
  then show ?case unfolding enc assign_all_keys by simp
qed

subsection \<open>Round trip\<close>

text \<open>
  Claim C1 says that decoding the encoding of any value gives the value back. The
  encoder writes nothing for an empty string, list or dictionary: the encoding of the
  empty string is the empty buffer, on which \<open>Decode\<close> panics, and a list whose only
  element is the empty string encodes as \<open>le\<close>, which decodes to the empty list.
\<close>

theorem round_trip_counterexample:
  "Decode (NewDecoder (Encode (ByteString []))) = Panic
   \<and> Decode (NewDecoder (Encode (BList [ByteString []])))
       = Ok (BList []) \<lparr>stream = ''le'', pos = 2, Consumed = True\<rparr>
   \<and> BList [ByteString []] \<noteq> BList []"
  by code_simp

text \<open>
  Claim C1, amended: for every value without an empty part (no empty string, list or
  dictionary at any depth, dictionary keys included), decoding the bytes produced by
  encoding it succeeds and yields the value again, with the cursor at the end of the
  encoded bytes and \<open>Consumed\<close> set.
\<close>

theorem round_trip:
  assumes "no_empty v"
  shows "Decode (NewDecoder (Encode v))
         = Ok v \<lparr>stream = Encode v, pos = length (Encode v), Consumed = True\<rparr>"
proof -
  let ?d = "NewDecoder (encodeObject v)"
  have st: "stream ?d = [] @ encodeObject v @ []" by (simp add: NewDecoder_def)
  have p: "pos ?d = length ([] :: string)" by (simp add: NewDecoder_def)
  have nc: "\<not> Consumed ?d" by (simp add: NewDecoder_def)
  have fuel: "2 * (length (encodeObject v) + length ([] :: string)) + 1 \<le> 2 * length (stream ?d) + 1"
    by (simp add: NewDecoder_def)
  have "Decode ?d = Ok v (mark_consumed (?d\<lparr>pos := length ([] :: string) + length (encodeObject v)\<rparr>))"
    unfolding Decode_def by (rule decode_encoded [OF assms st p nc fuel])
  then show ?thesis
    by (simp add: Encode_encodeObject NewDecoder_def mark_consumed_def)
qed

theorem round_trip_witness:
  "no_empty (Dictionary (fmupd ''spam'' (BList [ByteString ''eggs'', Integer (- 3)])
                          (fmupd ''cow'' (ByteString ''moo'') fmempty)))
   \<and> Decode (NewDecoder ''d3:cow3:moo4:spaml4:eggsi-3eee'')
       = Ok (Dictionary (fmupd ''spam'' (BList [ByteString ''eggs'', Integer (- 3)])
                          (fmupd ''cow'' (ByteString ''moo'') fmempty)))
            \<lparr>stream = ''d3:cow3:moo4:spaml4:eggsi-3eee'', pos = 30, Consumed = True\<rparr>"
proof -
  let ?v = "Dictionary (fmupd ''spam'' (BList [ByteString ''eggs'', Integer (- 3)])
                          (fmupd ''cow'' (ByteString ''moo'') fmempty))"
  have h: "no_empty ?v" by code_simp
  have e: "Encode ?v = ''d3:cow3:moo4:spaml4:eggsi-3eee''" by code_simp
  show ?thesis using h round_trip [OF h] unfolding e by simp
qed

subsection \<open>Duplicate keys\<close>

lemma last_occurrence:
  assumes "kvs = ys @ (k, x) # zs" and "k \<notin> fst ` set zs"
  shows "fmlookup (assign_all acc kvs) k = Some x"
proof -
  have "map_of (rev zs) k = None" using assms(2) by (simp add: map_of_eq_None_iff)
  then have "map_of (rev kvs) k = Some x"
    unfolding assms(1) by (simp add: map_add_def)
  then show ?thesis by (simp add: assign_all_lookup)
qed

text \<open>
  Claim C9: a dictionary stream whose entries repeat a key decodes without an error, and
  the result binds the key to the value of its last occurrence. The stream is \<open>d\<close>, the
  encoded entries of any non-empty list of pairs (keys may repeat), and \<open>e\<close>; the result
  is the map after assigning the pairs in the order of the stream, and a pair with no
  later pair of the same key is what the map holds for that key.
\<close>

theorem duplicate_keys_last_wins:
  assumes "kvs \<noteq> []"
    and "\<forall>(k, x)\<in>set kvs. k \<noteq> [] \<and> int (length k) < 2 ^ 63 \<and> no_empty x"
  shows "Decode (NewDecoder (''d'' @ concat (map encode_entry kvs) @ ''e''))
           = Ok (Dictionary (assign_all fmempty kvs))
               \<lparr>stream = ''d'' @ concat (map encode_entry kvs) @ ''e'',
                pos = length (''d'' @ concat (map encode_entry kvs) @ ''e''),
                Consumed = True\<rparr>
         \<and> (\<forall>k x ys zs. kvs = ys @ (k, x) # zs \<and> k \<notin> fst ` set zs
               \<longrightarrow> fmlookup (assign_all fmempty kvs) k = Some x)"
proof
  let ?s = "''d'' @ concat (map encode_entry kvs) @ ''e''"
  let ?d = "NewDecoder ?s"
  have st: "stream ?d = [] @ CHR ''d'' # concat (map encode_entry kvs) @ CHR ''e'' # []"
    by (simp add: NewDecoder_def)
  have p: "pos ?d = length ([] :: string)" by (simp add: NewDecoder_def)
  have nc: "\<not> Consumed ?d" by (simp add: NewDecoder_def)
  have fuel: "2 * (length (concat (map encode_entry kvs)) + 2 + length ([] :: string)) + 1
              \<le> 2 * length (stream ?d) + 1"
    by (simp add: NewDecoder_def)
  have ih: "nextObject n d = Ok x (mark_consumed (d\<lparr>pos := length pre + length (encodeObject x)\<rparr>))"
    if "(k, x) \<in> set kvs" "stream d = pre @ encodeObject x @ suf" "pos d = length pre" "\<not> Consumed d"
      "2 * (length (encodeObject x) + length suf) + 1 \<le> n" for k x n and d :: Decoder and pre suf
  proof -
    from assms(2) that(1) have "no_empty x" by auto
    from decode_encoded [OF this that(2-5)] show ?thesis .
  qed
  have "Decode ?d = Ok (Dictionary (assign_all fmempty kvs))
      (mark_consumed (?d\<lparr>pos := length ([] :: string) + length (concat (map encode_entry kvs)) + 2\<rparr>))"
    unfolding Decode_def by (rule decode_entries [OF ih assms(2,1) st p nc fuel])
  then show "Decode ?d = Ok (Dictionary (assign_all fmempty kvs))
      \<lparr>stream = ?s, pos = length ?s, Consumed = True\<rparr>"
    by (simp add: NewDecoder_def mark_consumed_def)
next
  show "\<forall>k x ys zs. kvs = ys @ (k, x) # zs \<and> k \<notin> fst ` set zs
               \<longrightarrow> fmlookup (assign_all fmempty kvs) k = Some x"
    using last_occurrence by blast
qed

theorem duplicate_keys_last_wins_witness:
  "Decode (NewDecoder ''d1:ai1e1:ai2ee'')
     = Ok (Dictionary (fmupd ''a'' (Integer 2) fmempty))
         \<lparr>stream = ''d1:ai1e1:ai2ee'', pos = 14, Consumed = True\<rparr>
   \<and> fmlookup (fmupd ''a'' (Integer 2) fmempty) ''a'' = Some (Integer 2)"
proof -
  let ?kvs = "[(''a'', Integer 1), (''a'', Integer 2)]"
  have ne: "?kvs \<noteq> []" by simp
  have ok: "\<forall>(k, x)\<in>set ?kvs. k \<noteq> [] \<and> int (length k) < 2 ^ 63 \<and> no_empty x" by simp
  have e: "concat (map encode_entry ?kvs) = ''1:ai1e1:ai2e''" by code_simp
  have a: "assign_all fmempty ?kvs = fmupd ''a'' (Integer 2) fmempty" by (simp add: assign_all_def)
  have split: "?kvs = [(''a'', Integer 1)] @ (''a'', Integer 2) # [] \<and> ''a'' \<notin> fst ` set []" by simp
  from duplicate_keys_last_wins [OF ne ok]
  have "Decode (NewDecoder (''d'' @ concat (map encode_entry ?kvs) @ ''e''))
           = Ok (Dictionary (assign_all fmempty ?kvs))
               \<lparr>stream = ''d'' @ concat (map encode_entry ?kvs) @ ''e'',
                pos = length (''d'' @ concat (map encode_entry ?kvs) @ ''e''),
                Consumed = True\<rparr>"
    and "fmlookup (assign_all fmempty ?kvs) ''a'' = Some (Integer 2)"
    using split by blast+
  then show ?thesis unfolding e a by simp
qed

subsection \<open>Canonical order of dictionary keys\<close>

text \<open>
  The order on strings is the lexicographic order of their bytes, a proper prefix being
  smaller: the order of Go's \<open><\<close> on strings, which \<open>sort.Strings\<close> uses. Sorting the
  keys gives the same list whatever order \<open>range\<close> has produced them in.
\<close>

lemma string_less_bytewise:
  "(xs :: string) < ys \<longleftrightarrow> (xs, ys) \<in> lexord {(a, b). (of_char a :: nat) < of_char b}"
  by (simp add: list_less_def less_char_def)

lemma sort_keys_any_order:
  assumes "distinct ks" and "fset_of_list ks = fmdom m"
  shows "sort ks = sorted_list_of_fset (fmdom m)"
proof -
  have "sorted_list_of_fset (fmdom m) = sorted_list_of_set (set ks)"
    unfolding assms(2) [symmetric] by (simp add: sorted_list_of_fset.rep_eq fset_of_list.rep_eq)
  also have "\<dots> = sort (remdups ks)" by (rule sorted_list_of_set_sort_remdups)
  also have "\<dots> = sort ks" using assms(1) by (simp add: distinct_remdups_id)
  finally show ?thesis by simp
qed

lemma sorted_keys_strict:
  "sorted_wrt (<) (sorted_list_of_fset (fmdom m)) \<and> set (sorted_list_of_fset (fmdom m)) = fset (fmdom m)"
  by (simp add: sorted_list_of_fset.rep_eq)

lemma assign_all_order:
  assumes "distinct (map fst xs)" and "distinct (map fst ys)" and "set xs = set ys"
  shows "assign_all acc xs = assign_all acc ys"
proof (rule fmap_ext)
  fix k
  have "distinct (map fst (rev xs))" "distinct (map fst (rev ys))"
    using assms(1,2) by (simp_all add: rev_map [symmetric])
  moreover have "set (rev xs) = set (rev ys)" using assms(3) by simp
  ultimately have "map_of (rev xs) = map_of (rev ys)"
    by (simp add: map_of_inject_set)
  then show "fmlookup (assign_all acc xs) k = fmlookup (assign_all acc ys) k"
    by (simp add: assign_all_lookup)
qed

text \<open>
  Claim C2: the encoder emits the entries of every dictionary in strictly ascending
  byte-lexicographic order of the keys (between \<open>d\<close> and \<open>e\<close>; the empty dictionary has no
  entries and is written as no bytes), and two dictionaries built from the same key/value
  pairs, assigned in any order, encode to the same bytes.
\<close>

theorem dictionary_encoding_canonical:
  "(\<exists>ks. sorted_wrt (<) ks \<and> set ks = fset (fmdom m)
        \<and> encodeDict m
            = (if m = fmempty then []
               else ''d'' @ concat (map (\<lambda>k. encodeString k @ encodeObject (the (fmlookup m k))) ks) @ ''e''))
   \<and> (\<forall>xs ys. distinct (map fst xs) \<and> distinct (map fst ys) \<and> set xs = set ys
         \<longrightarrow> Encode (Dictionary (assign_all fmempty xs)) = Encode (Dictionary (assign_all fmempty ys)))"
proof
  have "encodeDict m
            = (if m = fmempty then []
               else ''d'' @ concat (map (\<lambda>k. encodeString k @ encodeObject (the (fmlookup m k)))
                                     (sorted_list_of_fset (fmdom m))) @ ''e'')"
    by (simp add: encodeDict_unfold fmdom_fempty_iff)
  with sorted_keys_strict [of m]
  show "\<exists>ks. sorted_wrt (<) ks \<and> set ks = fset (fmdom m)
        \<and> encodeDict m
            = (if m = fmempty then []
               else ''d'' @ concat (map (\<lambda>k. encodeString k @ encodeObject (the (fmlookup m k))) ks) @ ''e'')"
    by blast
next
  show "\<forall>xs ys. distinct (map fst xs) \<and> distinct (map fst ys) \<and> set xs = set ys
         \<longrightarrow> Encode (Dictionary (assign_all fmempty xs)) = Encode (Dictionary (assign_all fmempty ys))"
    using assign_all_order [of _ _ fmempty] by metis
qed

theorem dictionary_encoding_canonical_witness:
  "Encode (Dictionary (assign_all fmempty [(''spam'', ByteString ''eggs''), (''cow'', ByteString ''moo'')]))
     = Encode (Dictionary (assign_all fmempty [(''cow'', ByteString ''moo''), (''spam'', ByteString ''eggs'')]))
   \<and> Encode (Dictionary (assign_all fmempty [(''spam'', ByteString ''eggs''), (''cow'', ByteString ''moo'')]))
     = ''d3:cow3:moo4:spam4:eggse''"
proof -
  let ?xs = "[(''spam'', ByteString ''eggs''), (''cow'', ByteString ''moo'')]"
  let ?ys = "[(''cow'', ByteString ''moo''), (''spam'', ByteString ''eggs'')]"
  have h: "distinct (map fst ?xs) \<and> distinct (map fst ?ys) \<and> set ?xs = set ?ys" by auto
  have e: "Encode (Dictionary (assign_all fmempty ?xs)) = ''d3:cow3:moo4:spam4:eggse''"
    by code_simp
  from dictionary_encoding_canonical [of fmempty] h
  have "Encode (Dictionary (assign_all fmempty ?xs)) = Encode (Dictionary (assign_all fmempty ?ys))"
    by blast
  with e show ?thesis by simp
qed


subsection \<open>Lists without a closing \<open>e\<close>\<close>

text \<open>
  After at least one element the loop of \<open>nextList\<close> sees that the cursor is at the end
  and returns \<open>ErrorNoTerminator\<close>; \<open>res\<close> holds the elements decoded so far, which a
  caller that looks at \<open>err\<close> first never uses.
\<close>

lemma mark_consumed_end:
  "length (stream d) \<le> pos d \<Longrightarrow> mark_consumed d = d\<lparr>Consumed := True\<rparr>"
  by (simp add: mark_consumed_def)

lemma listLoop_unterminated:
  assumes ok: "\<forall>x\<in>set xs. no_empty x"
    and ne: "xs \<noteq> []"
    and st: "stream d = pre @ concat (map encodeObject xs)"
    and p: "pos d = length pre"
    and nc: "\<not> Consumed d"
    and fuel: "2 * length (concat (map encodeObject xs)) + 2 \<le> n"
  shows "listLoop n acc d
         = Fail (acc @ xs) ErrorNoTerminator (d\<lparr>pos := length (stream d), Consumed := True\<rparr>)"
  using assms
proof (induction xs arbitrary: n d pre acc)
  case Nil
  then show ?case by simp
next
  case (Cons x xs)
  let ?rest = "concat (map encodeObject xs)"
  let ?d1 = "d\<lparr>pos := length pre + length (encodeObject x)\<rparr>"
  from Cons.prems(6) obtain m where n: "n = Suc m" by (cases n) auto
  have okx: "no_empty x" using Cons.prems(1) by simp
  have st1: "stream d = pre @ encodeObject x @ ?rest" using Cons.prems(3) by simp
  have f1: "2 * (length (encodeObject x) + length ?rest) + 1 \<le> m"
    using Cons.prems(6) n by simp
  have o: "nextObject m d = Ok x (mark_consumed ?d1)"
    by (rule decode_encoded [OF okx st1 Cons.prems(4,5) f1])
  show ?case
  proof (cases xs)
    case Nil
    have e: "length (stream ?d1) \<le> pos ?d1" using st1 Nil by simp
    have m: "mark_consumed ?d1 = ?d1\<lparr>Consumed := True\<rparr>" by (rule mark_consumed_end [OF e])
    have e': "length (stream (mark_consumed ?d1)) \<le> pos (mark_consumed ?d1)"
      unfolding m using e by simp
    show ?thesis
      unfolding n using listLoop_end [OF o e', of acc] Nil st1 by (simp add: m)
  next
    case (Cons y ys)
    have oky: "no_empty y" using Cons.prems(1) Cons by simp
    from first_byte [OF oky] obtain c cs where c: "encodeObject y = c # cs" "c \<noteq> CHR ''e''"
      by blast
    have inside: "pos ?d1 < length (stream ?d1)" using st1 Cons c by simp
    have o1: "nextObject m d = Ok x ?d1" using o mark_consumed_inside [OF inside] by simp
    have b: "byte_at (stream ?d1) (pos ?d1) = Some c"
      using byte_at_middle [of "pre @ encodeObject x" c "cs @ concat (map encodeObject ys)"]
        st1 Cons c by simp
    have xpos: "0 < length (encodeObject x)" using first_byte [OF okx] by auto
    have st2: "stream ?d1 = (pre @ encodeObject x) @ ?rest" using st1 by simp
    have p2: "pos ?d1 = length (pre @ encodeObject x)" by simp
    have nc2: "\<not> Consumed ?d1" using Cons.prems(5) by simp
    have len: "length (concat (map encodeObject (x # xs))) = length (encodeObject x) + length ?rest"
      by simp
    have f2: "2 * length ?rest + 2 \<le> m"
    proof -
      have "\<And>a b k :: nat. 2 * (a + b) + 2 \<le> Suc k \<Longrightarrow> 0 < a \<Longrightarrow> 2 * b + 2 \<le> k"
        by arith
      then show ?thesis using Cons.prems(6) xpos unfolding len n by blast
    qed
    have ok1: "\<forall>x\<in>set xs. no_empty x" using Cons.prems(1) by simp
    have ne1: "xs \<noteq> []" using Cons by simp
    have "listLoop n acc d = listLoop m (acc @ [x]) ?d1"
      unfolding n by (rule listLoop_more [OF o1 b c(2)])
    also have "\<dots> = Fail ((acc @ [x]) @ xs) ErrorNoTerminator
        (?d1\<lparr>pos := length (stream ?d1), Consumed := True\<rparr>)"
      by (rule Cons.IH [OF ok1 ne1 st2 p2 nc2 f2])
    finally show ?thesis by simp
  qed
qed

lemma boxed_Fail_eq: "boxed f (Fail x e d) = Fail (Some (f x)) e (mark_consumed d)"
  by (simp add: boxed_def)

lemma unterminated_list_with_elements:
  assumes ne: "xs \<noteq> []" and ok: "\<forall>x\<in>set xs. no_empty x"
  shows "Decode (NewDecoder (''l'' @ concat (map encodeObject xs)))
         = Fail (Some (BList xs)) ErrorNoTerminator
             \<lparr>stream = ''l'' @ concat (map encodeObject xs),
              pos = length (''l'' @ concat (map encodeObject xs)),
              Consumed = True\<rparr>"
proof -
  let ?s = "''l'' @ concat (map encodeObject xs)"
  let ?d = "NewDecoder ?s"
  let ?d1 = "?d\<lparr>pos := pos ?d + 1\<rparr>"
  obtain y ys where xs: "xs = y # ys" using ne by (cases xs) auto
  have "no_empty y" using ok xs by simp
  from first_byte [OF this] obtain c cs where c: "encodeObject y = c # cs" "c \<noteq> CHR ''e''"
    by blast
  have nc: "\<not> Consumed ?d" by (simp add: NewDecoder_def)
  have b0: "byte_at (stream ?d) (pos ?d) = Some CHR ''l''"
    by (simp add: NewDecoder_def byte_at_def)
  have b1: "byte_at (stream ?d) (pos ?d + 1) = Some c"
    by (simp add: NewDecoder_def byte_at_def xs c)
  have st1: "stream ?d1 = ''l'' @ concat (map encodeObject xs)" by (simp add: NewDecoder_def)
  have p1: "pos ?d1 = length ''l''" by (simp add: NewDecoder_def)
  have nc1: "\<not> Consumed ?d1" by (simp add: NewDecoder_def)
  have f1: "2 * length (concat (map encodeObject xs)) + 2 \<le> 2 * length (stream ?d)"
    by (simp add: NewDecoder_def)
  have "Decode ?d = boxed BList (nextList (2 * length (stream ?d)) ?d)"
    unfolding Decode_unfold by (rule nextObject_list [OF nc b0])
  also have "nextList (2 * length (stream ?d)) ?d = listLoop (2 * length (stream ?d)) [] ?d1"
    by (rule nextList_enter [OF b0 b1 c(2)])
  also have "\<dots> = Fail ([] @ xs) ErrorNoTerminator (?d1\<lparr>pos := length (stream ?d1), Consumed := True\<rparr>)"
    by (rule listLoop_unterminated [OF ok ne st1 p1 nc1 f1])
  finally show ?thesis
    by (simp add: boxed_Fail_eq mark_consumed_def NewDecoder_def)
qed

text \<open>
  Claim C7 says that a list that is opened and not closed fails with the error
  \<open>ErrorNoTerminator\<close>, after zero or more elements. With one element or more it does
  (the lemma above, and \<open>li15155e\<close> here). With no element, \<open>nextList\<close> reads
  \<open>self.stream[self.pos]\<close> right after skipping the \<open>l\<close>, with no check of the
  length: on the input \<open>l\<close> the index is out of range and the decoder panics.
\<close>

theorem unterminated_list_panics:
  "Decode (NewDecoder ''l'') = Panic
   \<and> Decode (NewDecoder ''li15155e'')
       = Fail (Some (BList [Integer 15155])) ErrorNoTerminator
           \<lparr>stream = ''li15155e'', pos = 8, Consumed = True\<rparr>"
  by code_simp

end
